theory Spec2Isabelle
  imports Complex_Main "HOL-Library.AList" "HOL-Library.Log_Nat" "HOL-Library.Multiset"
begin

section \<open>Exceptions and outcomes\<close>

text \<open>
  The exceptions the modelled code can end with.  \<open>Exception status_code error_message\<close> is
  the generic \<^verbatim>\<open>Exception\<close> raised inside the \<^verbatim>\<open>_fetch\<close> loops: its
  text is a fixed phrase into which exactly \<^verbatim>\<open>status_code\<close> and
  \<^verbatim>\<open>error_message\<close> are interpolated, so the two interpolated values are kept and the
  fixed phrase is left out.  \<open>APIError message status_code api_method\<close> is the class of
  \<^verbatim>\<open>tools/exceptions.py\<close>; the others are Python's built-in exceptions.
\<close>

datatype exn =
    Exception int string
  | APIError string int string
  | KeyError
  | TypeError
  | IndexError
  | ZeroDivisionError
  | CancelledError

text \<open>
  How a coroutine stands after the responses it was given: it returned, it raised, or it
  has sent a request and is suspended on the answer (\<open>Awaiting\<close>).
\<close>

datatype outcome = Returned | Raised exn | Awaiting

text \<open>
  A pandas \<^verbatim>\<open>Timestamp\<close> and a \<^verbatim>\<open>Timedelta\<close> are counts of nanoseconds (64-bit in
  pandas; the bound is not modelled, the theorems below stay far inside it).
\<close>

type_synonym timestamp = int
type_synonym timedelta = int

section \<open>The count-based paginator: \<^verbatim>\<open>FBOPostingList._fetch\<close>\<close>

text \<open>
  A decoded JSON answer together with the HTTP status it came with: the
  \<^verbatim>\<open>message\<close> field and the \<^verbatim>\<open>result\<close> field, each absent or present.  For
  \<^verbatim>\<open>v2/posting/fbo/list\<close> the result is the list of postings; the postings themselves
  are not inspected by the loop and stay abstract.
\<close>

record 'r response =
  status :: int
  message :: "string option"
  result :: "'r option"

text \<open>The fields of the instance that \<^verbatim>\<open>_fetch\<close> and \<^verbatim>\<open>_request_body\<close> read.\<close>

record fbo_self =
  url :: string
  order_status :: string
  interval :: timedelta

text \<open>
  One POST: the address and the fields of the body that vary (\<^verbatim>\<open>limit\<close> is the
  constant 1000).  Times are nanosecond counts; their formatting with
  \<^verbatim>\<open>strftime\<close> is not modelled.
\<close>

record request =
  req_url :: string
  req_since :: timestamp
  req_to :: timestamp
  req_status :: string
  req_limit :: nat
  req_offset :: nat

definition request_body :: "fbo_self \<Rightarrow> timestamp \<Rightarrow> timestamp \<Rightarrow> nat \<Rightarrow> request" where
  "request_body self date_since date_to offset =
     \<lparr>req_url = url self, req_since = date_since, req_to = date_to,
      req_status = order_status self, req_limit = 1000, req_offset = offset\<rparr>"

text \<open>Python's truth value of \<^verbatim>\<open>result.get("message")\<close>: absent or empty is false.\<close>

fun truthy :: "string option \<Rightarrow> bool" where
  "truthy None = False"
| "truthy (Some m) = (m \<noteq> [])"

text \<open>
  The state of a fetch: the shared buffer \<^verbatim>\<open>self.data\<close> and the requests sent so far.
\<close>

record ('a, 'q) fetch_state =
  data :: "'a list"
  sent :: "'q list"

text \<open>
  The \<^verbatim>\<open>while switcher\<close> loop, driven by the answers of the endpoint in the order they
  arrive.  Every iteration sends the request for the current offset first; when no answer
  is left the coroutine is suspended on that request.
\<close>

fun fetch_loop ::
  "fbo_self \<Rightarrow> timestamp \<Rightarrow> bool \<Rightarrow> nat \<Rightarrow> 'a list response list \<Rightarrow> ('a, request) fetch_state
     \<Rightarrow> outcome \<times> ('a, request) fetch_state"
where
  "fetch_loop self since False offset rs st = (Returned, st)"
| "fetch_loop self since True offset [] st =
     (Awaiting, st\<lparr>sent := sent st @ [request_body self since (since + interval self) offset]\<rparr>)"
| "fetch_loop self since True offset (r # rs) st =
     (let st1 = st\<lparr>sent := sent st @ [request_body self since (since + interval self) offset]\<rparr>
      in if truthy (message r)
         then (Raised (Exception (status r) (the (message r))), st1)
         else (case result r of
                 None \<Rightarrow> (Raised KeyError, st1)
               | Some items \<Rightarrow>
                   fetch_loop self since (\<not> length items < 1000) (offset + 1000) rs
                     (st1\<lparr>data := data st1 @ items\<rparr>)))"

definition fetch ::
  "fbo_self \<Rightarrow> timestamp \<Rightarrow> 'a list response list \<Rightarrow> ('a, request) fetch_state
     \<Rightarrow> outcome \<times> ('a, request) fetch_state"
where
  "fetch self since rs st = fetch_loop self since True 0 rs st"

text \<open>
  Vocabulary for the theorems on the loop: an answer that is a page (no error text, a
  \<^verbatim>\<open>result\<close> present), the items of a page, and the requests of \<open>n\<close> consecutive
  iterations that begin at an offset.
\<close>

definition is_page :: "'r response \<Rightarrow> bool" where
  "is_page r \<longleftrightarrow> \<not> truthy (message r) \<and> result r \<noteq> None"

definition items_of :: "'a list response \<Rightarrow> 'a list" where
  "items_of r = (case result r of None \<Rightarrow> [] | Some items \<Rightarrow> items)"

definition requests_from :: "fbo_self \<Rightarrow> timestamp \<Rightarrow> nat \<Rightarrow> nat \<Rightarrow> request list" where
  "requests_from self since offset n =
     map (\<lambda>i. request_body self since (since + interval self) (offset + 1000 * i)) [0..<n]"

section \<open>The fan-out: \<^verbatim>\<open>FBOPostingList._main\<close>\<close>

text \<open>
  The window tasks of one run share the instance, and with it the one list
  \<^verbatim>\<open>self.data\<close>; each has its own \<^verbatim>\<open>offset\<close>.  A coroutine is what lies between two
  of its suspension points: the window it fetches, its offset, how it stands, and the
  requests it has sent.
\<close>

record coroutine =
  co_since :: timestamp
  co_offset :: nat
  co_standing :: outcome
  co_sent :: "request list"

text \<open>A task from its creation to its first suspension: the request for offset 0 is sent.\<close>

definition create_task :: "fbo_self \<Rightarrow> timestamp \<Rightarrow> coroutine" where
  "create_task self since =
     \<lparr>co_since = since, co_offset = 0, co_standing = Awaiting,
      co_sent = [request_body self since (since + interval self) 0]\<rparr>"

text \<open>
  \<^verbatim>\<open>for year in range(self.years)\<close>: one task per window, the next window beginning one
  second after the end of the one before.
\<close>

fun create_tasks :: "fbo_self \<Rightarrow> nat \<Rightarrow> timestamp \<Rightarrow> coroutine list" where
  "create_tasks self 0 since = []"
| "create_tasks self (Suc years) since =
     create_task self since # create_tasks self years (since + (interval self + 1000000000))"

text \<open>
  One turn of the \<^verbatim>\<open>while switcher\<close> loop of a suspended coroutine, from the arrival of
  the answer to the next suspension or to the end of the coroutine, on the shared buffer.
\<close>

definition fetch_iteration ::
  "fbo_self \<Rightarrow> 'a list response \<Rightarrow> coroutine \<Rightarrow> 'a list \<Rightarrow> coroutine \<times> 'a list"
where
  "fetch_iteration self r c buffer =
     (if truthy (message r)
      then (c\<lparr>co_standing := Raised (Exception (status r) (the (message r)))\<rparr>, buffer)
      else (case result r of
              None \<Rightarrow> (c\<lparr>co_standing := Raised KeyError\<rparr>, buffer)
            | Some items \<Rightarrow>
                (let offset = co_offset c + 1000
                 in if length items < 1000
                    then (c\<lparr>co_offset := offset, co_standing := Returned\<rparr>, buffer @ items)
                    else (c\<lparr>co_offset := offset,
                            co_sent := co_sent c @
                              [request_body self (co_since c) (co_since c + interval self) offset]\<rparr>,
                          buffer @ items))))"

text \<open>
  The state of a run: the tasks and the shared buffer.  What happens to a run is a sequence
  of events, in any order the network and the orchestrator produce: the answer to the
  request that task \<open>i\<close> waits on arrives, or the cancellation of task \<open>i\<close> takes effect at
  the point where it is suspended.  An event for a task that is not suspended on a request
  does nothing.
\<close>

record 'a event_loop =
  coroutines :: "coroutine list"
  self_data :: "'a list"

datatype 'a event = Answer nat "'a list response" | Cancel nat

definition suspended :: "'a event_loop \<Rightarrow> nat \<Rightarrow> bool" where
  "suspended w i \<longleftrightarrow> i < length (coroutines w) \<and> co_standing (coroutines w ! i) = Awaiting"

fun deliver :: "fbo_self \<Rightarrow> 'a event \<Rightarrow> 'a event_loop \<Rightarrow> 'a event_loop" where
  "deliver self (Answer i r) w =
     (if suspended w i
      then (case fetch_iteration self r (coroutines w ! i) (self_data w) of
              (c, buffer) \<Rightarrow> \<lparr>coroutines = (coroutines w)[i := c], self_data = buffer\<rparr>)
      else w)"
| "deliver self (Cancel i) w =
     (if suspended w i
      then w\<lparr>coroutines := (coroutines w)[i := (coroutines w ! i)\<lparr>co_standing := Raised CancelledError\<rparr>]\<rparr>
      else w)"

definition run :: "fbo_self \<Rightarrow> 'a event list \<Rightarrow> 'a event_loop \<Rightarrow> 'a event_loop" where
  "run self events w = fold (deliver self) events w"

text \<open>The run as \<^verbatim>\<open>_main\<close> starts it, on the buffer as it stands.\<close>

definition main_start :: "fbo_self \<Rightarrow> nat \<Rightarrow> timestamp \<Rightarrow> 'a list \<Rightarrow> 'a event_loop" where
  "main_start self years date_since buffer =
     \<lparr>coroutines = create_tasks self years date_since, self_data = buffer\<rparr>"

text \<open>
  What a sequence of events brings into the buffer: the items of every page that arrives
  for a task suspended on its request, in the order of arrival.
\<close>

fun received :: "fbo_self \<Rightarrow> 'a event list \<Rightarrow> 'a event_loop \<Rightarrow> 'a list" where
  "received self [] w = []"
| "received self (Answer i r # events) w =
     (if suspended w i \<and> is_page r then items_of r else [])
       @ received self events (deliver self (Answer i r) w)"
| "received self (Cancel i # events) w = received self events (deliver self (Cancel i) w)"

section \<open>The page-count paginator: \<^verbatim>\<open>AsyncFinanceRealizationList._fetch\<close>\<close>

text \<open>
  The \<^verbatim>\<open>result\<close> object of \<^verbatim>\<open>v3/finance/transaction/list\<close>: the operations of the
  page and the number of pages the endpoint reports.
\<close>

record 'a transactions =
  operations :: "'a list"
  page_count :: int

record fin_self =
  fin_url :: string
  transaction_type :: string

record fin_request =
  freq_url :: string
  freq_from :: timestamp
  freq_to :: timestamp
  freq_transaction_type :: string
  freq_page :: int
  freq_page_size :: nat

definition fin_request_body :: "fin_self \<Rightarrow> timestamp \<Rightarrow> timestamp \<Rightarrow> int \<Rightarrow> fin_request" where
  "fin_request_body self date_since date_to page =
     \<lparr>freq_url = fin_url self, freq_from = date_since, freq_to = date_to,
      freq_transaction_type = transaction_type self, freq_page = page, freq_page_size = 1000\<rparr>"

text \<open>
  The \<^verbatim>\<open>while switcher\<close> loop of the finance fetcher: \<^verbatim>\<open>page\<close> starts at 1, the
  loop goes on unless \<^verbatim>\<open>page == result["result"]["page_count"]\<close>, and \<^verbatim>\<open>page\<close> is
  incremented after the test.
\<close>

fun fin_fetch_loop ::
  "fin_self \<Rightarrow> timestamp \<Rightarrow> timestamp \<Rightarrow> bool \<Rightarrow> int \<Rightarrow> 'a transactions response list
     \<Rightarrow> ('a, fin_request) fetch_state \<Rightarrow> outcome \<times> ('a, fin_request) fetch_state"
where
  "fin_fetch_loop self date_since date_to False page rs st = (Returned, st)"
| "fin_fetch_loop self date_since date_to True page [] st =
     (Awaiting, st\<lparr>sent := sent st @ [fin_request_body self date_since date_to page]\<rparr>)"
| "fin_fetch_loop self date_since date_to True page (r # rs) st =
     (let st1 = st\<lparr>sent := sent st @ [fin_request_body self date_since date_to page]\<rparr>
      in if truthy (message r)
         then (Raised (Exception (status r) (the (message r))), st1)
         else (case result r of
                 None \<Rightarrow> (Raised KeyError, st1)
               | Some res \<Rightarrow>
                   fin_fetch_loop self date_since date_to (\<not> page = page_count res) (page + 1) rs
                     (st1\<lparr>data := data st1 @ operations res\<rparr>)))"

definition fin_fetch ::
  "fin_self \<Rightarrow> timestamp \<Rightarrow> timestamp \<Rightarrow> 'a transactions response list
     \<Rightarrow> ('a, fin_request) fetch_state \<Rightarrow> outcome \<times> ('a, fin_request) fetch_state"
where
  "fin_fetch self date_since date_to rs st = fin_fetch_loop self date_since date_to True 1 rs st"

text \<open>
  Vocabulary for the theorems on the loop: the operations and the page count of an answer
  (of a page, in the sense of \<^const>\<open>is_page\<close>).
\<close>

definition operations_of :: "'a transactions response \<Rightarrow> 'a list" where
  "operations_of r = (case result r of None \<Rightarrow> [] | Some res \<Rightarrow> operations res)"

definition page_count_of :: "'a transactions response \<Rightarrow> int" where
  "page_count_of r = (case result r of None \<Rightarrow> 0 | Some res \<Rightarrow> page_count res)"

definition fin_requests_from :: "fin_self \<Rightarrow> timestamp \<Rightarrow> timestamp \<Rightarrow> int \<Rightarrow> nat \<Rightarrow> fin_request list" where
  "fin_requests_from self date_since date_to page n =
     map (\<lambda>i. fin_request_body self date_since date_to (page + int i)) [0..<n]"

section \<open>The interval partitioner: \<^verbatim>\<open>dates_delta\<close>\<close>

text \<open>One day, in nanoseconds.\<close>

definition day_ns :: timedelta where
  "day_ns = 86400000000000"

text \<open>\<^verbatim>\<open>Timedelta.days\<close>: the whole days of the duration, rounded towards minus infinity.\<close>

definition days :: "timedelta \<Rightarrow> int" where
  "days td = td div day_ns"

text \<open>
  Python's \<^verbatim>\<open>a / b\<close> on two integers is a float: the IEEE binary64 number nearest to the
  exact quotient, ties to the even significand.  The float is represented by the rational it
  denotes.  \<open>floor_log2_quot a b\<close> is the binary exponent of \<open>a / b\<close> for positive
  \<open>a\<close> and \<open>b\<close>; the significand has 53 bits.  Overflow and subnormal numbers are out of
  reach of 64-bit operands and are not modelled.
\<close>

definition pow2 :: "int \<Rightarrow> rat" where
  "pow2 e = (if 0 \<le> e then 2 ^ nat e else 1 / 2 ^ nat (- e))"

definition floor_log2_quot :: "int \<Rightarrow> int \<Rightarrow> int" where
  "floor_log2_quot a b =
     (let e = bitlen a - bitlen b
      in if of_int b * pow2 e \<le> (of_int a :: rat) then e else e - 1)"

definition round_half_even :: "rat \<Rightarrow> int" where
  "round_half_even y =
     (let f = \<lfloor>y\<rfloor>; r = y - of_int f
      in if r < 1 / 2 then f
         else if 1 / 2 < r then f + 1
         else if even f then f else f + 1)"

definition py_truediv :: "int \<Rightarrow> int \<Rightarrow> exn + rat" where
  "py_truediv a b =
     (if b = 0 then Inl ZeroDivisionError
      else if a = 0 then Inr 0
      else let ulp = pow2 (floor_log2_quot \<bar>a\<bar> \<bar>b\<bar> - 52)
           in Inr (of_int (sgn a * sgn b)
                   * of_int (round_half_even (of_int \<bar>a\<bar> / of_int \<bar>b\<bar> / ulp)) * ulp))"

text \<open>The conversion of a float to a 64-bit integer drops the fraction.\<close>

definition trunc :: "rat \<Rightarrow> int" where
  "trunc q = (if 0 \<le> q then \<lfloor>q\<rfloor> else \<lceil>q\<rceil>)"

text \<open>
  \<^verbatim>\<open>Timedelta / int\<close> in pandas: the nanosecond count divided as above, the float result
  converted back to a nanosecond count.
\<close>

definition timedelta_truediv :: "timedelta \<Rightarrow> int \<Rightarrow> exn + timedelta" where
  "timedelta_truediv td n = (case py_truediv td n of Inl e \<Rightarrow> Inl e | Inr q \<Rightarrow> Inr (trunc q))"

text \<open>
  \<^verbatim>\<open>years = ((time_to - time_since).days / 365).__ceil__()\<close> and
  \<^verbatim>\<open>interval_step = (time_to - time_since) / years\<close>.
\<close>

definition dates_delta :: "timestamp \<Rightarrow> timestamp \<Rightarrow> exn + int \<times> timedelta" where
  "dates_delta time_since time_to =
     (case py_truediv (days (time_to - time_since)) 365 of
        Inl e \<Rightarrow> Inl e
      | Inr q \<Rightarrow>
          (let years = \<lceil>q\<rceil>
           in case timedelta_truediv (time_to - time_since) years of
                Inl e \<Rightarrow> Inl e
              | Inr interval_step \<Rightarrow> Inr (years, interval_step)))"

section \<open>Records: decoded JSON\<close>

text \<open>
  A record is a decoded JSON object.  A Python \<^verbatim>\<open>dict\<close> keeps its keys in insertion
  order, so it is an association list: \<^verbatim>\<open>d[k] = v\<close> replaces the value of a key that is
  present where it stands and appends a new key at the end (\<^const>\<open>AList.update\<close>),
  \<^verbatim>\<open>d.pop(k)\<close> removes the key (\<^const>\<open>AList.delete\<close>), \<^verbatim>\<open>d[k]\<close> is
  \<^const>\<open>map_of\<close> and raises \<^verbatim>\<open>KeyError\<close> on a missing key.  The keys of a Python dict
  are distinct; the theorems assume it where they need it.
\<close>

datatype json =
    JNull
  | JBool bool
  | JInt int
  | JFloat rat
  | JStr string
  | JList "json list"
  | JDict "(string \<times> json) list"

type_synonym pydict = "(string \<times> json) list"

fun is_dict :: "json \<Rightarrow> bool" where
  "is_dict (JDict kvs) = True"
| "is_dict v = False"

definition getitem :: "pydict \<Rightarrow> string \<Rightarrow> exn + json" where
  "getitem d k = (case map_of d k of None \<Rightarrow> Inl KeyError | Some v \<Rightarrow> Inr v)"

text \<open>\<^verbatim>\<open>len(v)\<close> and \<^verbatim>\<open>v[i]\<close> for an index \<open>i \<ge> 0\<close>, on a decoded JSON value.\<close>

fun py_len :: "json \<Rightarrow> exn + nat" where
  "py_len (JStr s) = Inr (length s)"
| "py_len (JList xs) = Inr (length xs)"
| "py_len (JDict kvs) = Inr (length kvs)"
| "py_len v = Inl TypeError"

fun py_index :: "json \<Rightarrow> nat \<Rightarrow> exn + json" where
  "py_index (JStr s) i = (if i < length s then Inr (JStr [s ! i]) else Inl IndexError)"
| "py_index (JList xs) i = (if i < length xs then Inr (xs ! i) else Inl IndexError)"
| "py_index (JDict kvs) i = Inl KeyError"
| "py_index v i = Inl TypeError"

text \<open>Sequencing of computations that may raise.\<close>

definition bind_exn :: "exn + 'a \<Rightarrow> ('a \<Rightarrow> exn + 'b) \<Rightarrow> exn + 'b" where
  "bind_exn m f = (case m of Inl e \<Rightarrow> Inl e | Inr x \<Rightarrow> f x)"

fun map_exn :: "('a \<Rightarrow> exn + 'b) \<Rightarrow> 'a list \<Rightarrow> exn + 'b list" where
  "map_exn f [] = Inr []"
| "map_exn f (x # xs) = bind_exn (f x) (\<lambda>y. bind_exn (map_exn f xs) (\<lambda>ys. Inr (y # ys)))"

section \<open>Flatten: \<^verbatim>\<open>flatten_dict\<close>\<close>

text \<open>
  The innermost loop: every pair of the nested dict is stored in the parent under the key
  \<^verbatim>\<open>parent_key + "__" + nested_key\<close>.
\<close>

definition promote :: "string \<Rightarrow> pydict \<Rightarrow> pydict \<Rightarrow> pydict" where
  "promote parent_key nested parent_dict =
     fold (\<lambda>(nested_key, nested_value). AList.update (parent_key @ ''__'' @ nested_key) nested_value)
       nested parent_dict"

text \<open>The body of \<^verbatim>\<open>for parent_key in list(parent_dict)\<close>.\<close>

definition visit :: "string \<Rightarrow> pydict \<Rightarrow> exn + pydict" where
  "visit parent_key parent_dict =
     (case map_of parent_dict parent_key of
        None \<Rightarrow> Inl KeyError
      | Some (JDict nested) \<Rightarrow> Inr (AList.delete parent_key (promote parent_key nested parent_dict))
      | Some _ \<Rightarrow> Inr parent_dict)"

fun pass :: "string list \<Rightarrow> pydict \<Rightarrow> exn + pydict" where
  "pass [] parent_dict = Inr parent_dict"
| "pass (parent_key # keys) parent_dict = bind_exn (visit parent_key parent_dict) (pass keys)"

text \<open>
  \<^verbatim>\<open>while any(isinstance(i, dict) for i in parent_dict.values())\<close>: one pass over the keys
  the dict has when the pass begins.  \<open>None\<close> stands for a loop that does not end.
\<close>

partial_function (option) flatten_while :: "pydict \<Rightarrow> (exn + pydict) option" where
  "flatten_while parent_dict =
     (if list_ex is_dict (map snd parent_dict)
      then (case pass (map fst parent_dict) parent_dict of
              Inl e \<Rightarrow> Some (Inl e)
            | Inr d \<Rightarrow> flatten_while d)
      else Some (Inr parent_dict))"

text \<open>
  The records of a list are objects: the list holds references into a store, and
  \<^verbatim>\<open>flatten_dict\<close> changes the objects behind the references where they are.
  \<^verbatim>\<open>data_to_unpack.copy()\<close> is a new list of the same references.
\<close>

type_synonym ref = nat
type_synonym store = "ref \<Rightarrow> pydict"

fun flatten_for :: "ref list \<Rightarrow> store \<Rightarrow> (exn + store) option" where
  "flatten_for [] h = Some (Inr h)"
| "flatten_for (parent_dict # array) h =
     (case flatten_while (h parent_dict) of
        None \<Rightarrow> None
      | Some (Inl e) \<Rightarrow> Some (Inl e)
      | Some (Inr d) \<Rightarrow> flatten_for array (h(parent_dict := d)))"

definition flatten_dict :: "store \<Rightarrow> ref list \<Rightarrow> (exn + ref list \<times> store) option" where
  "flatten_dict h data_to_unpack =
     (let array = data_to_unpack
      in case flatten_for array h of
           None \<Rightarrow> None
         | Some (Inl e) \<Rightarrow> Some (Inl e)
         | Some (Inr h') \<Rightarrow> Some (Inr (array, h')))"

text \<open>
  The measure of the loop: the number of dicts that are reached from the values of a record
  through dicts alone.
\<close>

fun weight :: "json \<Rightarrow> nat" where
  "weight (JDict kvs) = Suc (sum_list (map (\<lambda>kv. weight (snd kv)) kvs))"
| "weight v = 0"

definition dict_weight :: "pydict \<Rightarrow> nat" where
  "dict_weight d = sum_list (map (\<lambda>kv. weight (snd kv)) d)"

definition flat :: "pydict \<Rightarrow> bool" where
  "flat d \<longleftrightarrow> \<not> list_ex is_dict (map snd d)"

text \<open>
  What Flatten is to produce, in the words of the specification: every nested mapping, at
  any depth, gives way to its own pairs, each under the key of the mapping, two underscores
  and its own key.  \<open>leaves key v\<close> are the pairs that the value \<open>v\<close> under \<open>key\<close> ends
  as, and \<open>nodes key v\<close> are the keys that appear on the way, the keys of the nested
  mappings included: when these are distinct no promoted key meets a key that is present.
\<close>

fun leaves :: "string \<Rightarrow> json \<Rightarrow> pydict" where
  "leaves key (JDict kvs) = concat (map (\<lambda>kv. leaves (key @ ''__'' @ fst kv) (snd kv)) kvs)"
| "leaves key v = [(key, v)]"

fun nodes :: "string \<Rightarrow> json \<Rightarrow> string list" where
  "nodes key (JDict kvs) = key # concat (map (\<lambda>kv. nodes (key @ ''__'' @ fst kv) (snd kv)) kvs)"
| "nodes key v = [key]"

definition leaves_of :: "pydict \<Rightarrow> pydict" where
  "leaves_of d = concat (map (\<lambda>kv. leaves (fst kv) (snd kv)) d)"

definition nodes_of :: "pydict \<Rightarrow> string list" where
  "nodes_of d = concat (map (\<lambda>kv. nodes (fst kv) (snd kv)) d)"

definition renamed :: "string \<Rightarrow> pydict \<Rightarrow> pydict" where
  "renamed parent_key nested = map (\<lambda>kv. (parent_key @ ''__'' @ fst kv, snd kv)) nested"

section \<open>Explode: \<^verbatim>\<open>mult_data\<close> and \<^verbatim>\<open>mult_data2\<close>\<close>

text \<open>
  Both functions read the records of their argument and write only into
  \<^verbatim>\<open>deepcopy\<close> clones, which share nothing with the argument; the clones are the values
  returned.  An exception leaves the function without a result.
\<close>

definition mult_clone :: "string \<Rightarrow> pydict \<Rightarrow> nat \<Rightarrow> exn + pydict" where
  "mult_clone column group_name item =
     (let clone = group_name
      in bind_exn (getitem clone column) (\<lambda>v.
         bind_exn (py_index v item) (\<lambda>x. Inr (AList.update column x clone))))"

fun mult_data :: "pydict list \<Rightarrow> string \<Rightarrow> exn + pydict list" where
  "mult_data [] column = Inr []"
| "mult_data (group_name # rest) column =
     bind_exn (getitem group_name column) (\<lambda>v.
     bind_exn (py_len v) (\<lambda>n.
     bind_exn (map_exn (mult_clone column group_name) [0..<n]) (\<lambda>rows.
     bind_exn (mult_data rest column) (\<lambda>more. Inr (rows @ more)))))"

text \<open>The body of the loop of the first branch (the lengths differ).\<close>

definition clone_unaligned :: "string \<Rightarrow> string \<Rightarrow> pydict \<Rightarrow> nat \<Rightarrow> exn + pydict" where
  "clone_unaligned first_column second_column note i1 =
     (let clone = AList.update second_column JNull note
      in bind_exn (getitem clone first_column) (\<lambda>v.
         bind_exn (py_index v i1) (\<lambda>x. Inr (AList.update first_column x clone))))"

text \<open>The body of the loop of the second branch (the lengths are equal).\<close>

definition clone_aligned :: "string \<Rightarrow> string \<Rightarrow> pydict \<Rightarrow> nat \<Rightarrow> exn + pydict" where
  "clone_aligned first_column second_column note i1 =
     bind_exn (getitem note second_column) (\<lambda>w.
     bind_exn (py_index w i1) (\<lambda>y.
       let clone = AList.update second_column y note
       in bind_exn (getitem clone first_column) (\<lambda>v.
          bind_exn (py_index v i1) (\<lambda>x. Inr (AList.update first_column x clone)))))"

fun mult_data2 :: "pydict list \<Rightarrow> string \<Rightarrow> string \<Rightarrow> exn + pydict list" where
  "mult_data2 [] first_column second_column = Inr []"
| "mult_data2 (note # rest) first_column second_column =
     bind_exn (getitem note first_column) (\<lambda>v1.
     bind_exn (py_len v1) (\<lambda>n1.
     bind_exn (getitem note second_column) (\<lambda>v2.
     bind_exn (py_len v2) (\<lambda>n2.
     bind_exn
       (if n1 \<noteq> n2
        then map_exn (clone_unaligned first_column second_column note) [0..<n1]
        else map_exn (clone_aligned first_column second_column note) [0..<n1]) (\<lambda>rows.
     bind_exn (mult_data2 rest first_column second_column) (\<lambda>more. Inr (rows @ more)))))))"

section \<open>The orchestrator: \<^verbatim>\<open>manage_asyncio_wait\<close>\<close>

text \<open>
  The log.  A record has a level, a text and the exception given as \<^verbatim>\<open>exc_info\<close>.  The
  text of the record written in the loop is a fixed phrase in Russian (``an exception
  occurred while the request was executed''), kept as \<open>Request_failed\<close>.  The root logger is
  the one \<^verbatim>\<open>logging.basicConfig(level=logging.INFO, ...)\<close> sets up: a call below the level
  \<^verbatim>\<open>INFO\<close> writes nothing.
\<close>

datatype level = DEBUG | INFO | WARNING | ERROR | CRITICAL

fun severity :: "level \<Rightarrow> nat" where
  "severity DEBUG = 10"
| "severity INFO = 20"
| "severity WARNING = 30"
| "severity ERROR = 40"
| "severity CRITICAL = 50"

datatype log_text = Text string | Request_failed

datatype log_record = Log_record level log_text "exn option"

definition logging_call :: "level \<Rightarrow> log_text \<Rightarrow> exn option \<Rightarrow> log_record list \<Rightarrow> log_record list" where
  "logging_call lvl txt exc_info journal =
     (if severity INFO \<le> severity lvl then journal @ [Log_record lvl txt exc_info] else journal)"

text \<open>
  The list \<^verbatim>\<open>logging_options\<close> is evaluated on every call: after the configuration, one
  call at each level, in this order.
\<close>

definition logging_options :: "log_record list \<Rightarrow> log_record list" where
  "logging_options journal =
     logging_call CRITICAL (Text ''A message of CRITICAL severity'') None
       (logging_call ERROR (Text ''An ERROR'') None
         (logging_call WARNING (Text ''A WARNING'') None
           (logging_call INFO (Text ''An INFO'') None
             (logging_call DEBUG (Text ''A DEBUG Message'') None journal))))"

text \<open>
  What the orchestrator can observe of an \<^verbatim>\<open>asyncio.Task\<close>: when its coroutine ends if
  it is left alone (a tick of the event loop), the exception it ends with (\<open>None\<close> for a
  normal return), and whether \<^verbatim>\<open>cancel()\<close> has been called on it.  A task whose
  cancellation was requested while it was pending ends cancelled, as the coroutines of the
  fetchers do not catch \<^verbatim>\<open>CancelledError\<close>.
\<close>

record task =
  finish_at :: nat
  ending :: "exn option"
  cancel_requested :: bool

definition cancel :: "task \<Rightarrow> task" where
  "cancel k = k\<lparr>cancel_requested := True\<rparr>"

text \<open>
  \<^verbatim>\<open>Task.exception()\<close> of a task that is done: it raises \<^verbatim>\<open>CancelledError\<close> for a
  cancelled task and returns the exception of the coroutine, or \<^verbatim>\<open>None\<close>, otherwise.
\<close>

definition exception :: "task \<Rightarrow> exn + exn option" where
  "exception k = (if cancel_requested k then Inl CancelledError else Inr (ending k))"

text \<open>
  \<^verbatim>\<open>asyncio.wait(pending, return_when=FIRST_COMPLETED)\<close>: it returns at the first tick at
  which a pending task is done, with the tasks done by then and the tasks still pending.  A
  task under cancellation is done before any task that still waits for the network.
\<close>

definition completes_at :: "task \<Rightarrow> nat" where
  "completes_at k = (if cancel_requested k then 0 else finish_at k)"

fun first_completed :: "task list \<Rightarrow> nat" where
  "first_completed [] = 0"
| "first_completed [k] = completes_at k"
| "first_completed (k # ks) = min (completes_at k) (first_completed ks)"

definition asyncio_wait :: "task list \<Rightarrow> task list \<times> task list" where
  "asyncio_wait pending = partition (\<lambda>k. completes_at k \<le> first_completed pending) pending"

text \<open>
  \<^verbatim>\<open>for done_task in done\<close>: a failed task is logged at the level \<^verbatim>\<open>ERROR\<close>, with its
  exception, and \<^verbatim>\<open>cancel()\<close> is called on every task still pending.  The tasks done are a
  set in the source; they are inspected here in the order of the list.  The result is the
  exception that left the loop, if any, with the pending tasks and the log.
\<close>

fun inspect ::
  "task list \<Rightarrow> task list \<Rightarrow> log_record list \<Rightarrow> exn option \<times> task list \<times> log_record list"
where
  "inspect [] pending journal = (None, pending, journal)"
| "inspect (done_task # done) pending journal =
     (case exception done_task of
        Inl e \<Rightarrow> (Some e, pending, journal)
      | Inr None \<Rightarrow> inspect done pending journal
      | Inr (Some e) \<Rightarrow>
          inspect done (map cancel pending) (logging_call ERROR Request_failed (Some e) journal))"

text \<open>
  How a call ends: by falling off the loop or by an exception of a call it makes (the
  function has no \<^verbatim>\<open>return\<close> and no \<^verbatim>\<open>raise\<close> of its own), the log it has written, and
  the tasks as the call leaves them, the ones inspected first.
\<close>

record orchestration =
  outcome_of :: outcome
  log_of :: "log_record list"
  tasks_of :: "task list"

text \<open>\<^verbatim>\<open>while pending\<close>; \<open>inspected\<close> are the tasks of the rounds before.\<close>

function manage_loop :: "task list \<Rightarrow> log_record list \<Rightarrow> task list \<Rightarrow> orchestration" where
  "manage_loop pending journal inspected =
     (if pending = []
      then \<lparr>outcome_of = Returned, log_of = journal, tasks_of = inspected\<rparr>
      else (case asyncio_wait pending of
              (done, pending1) \<Rightarrow>
                (case inspect done pending1 journal of
                   (Some e, pending2, journal2) \<Rightarrow>
                     \<lparr>outcome_of = Raised e, log_of = journal2,
                      tasks_of = inspected @ done @ pending2\<rparr>
                 | (None, pending2, journal2) \<Rightarrow>
                     manage_loop pending2 journal2 (inspected @ done))))"
  by pat_completeness auto

termination
proof (relation "measure (\<lambda>(pending, journal, inspected). length pending)", goal_cases)
  case 1
  show ?case by simp
next
  case (2 pending journal inspected dn pending1 r rest pending2 journal2)
  have inspect_length: "length (fst (snd (inspect ds ps js))) = length ps" for ds ps js
    by (induction ds ps js rule: inspect.induct) (auto split: sum.splits option.splits)
  have first_completed_attained: "\<exists>k\<in>set ps. completes_at k \<le> first_completed ps"
    if "ps \<noteq> []" for ps
    using that by (induction ps rule: first_completed.induct) (auto simp: min_def)
  from 2(2) have "pending1 = filter (\<lambda>k. \<not> completes_at k \<le> first_completed pending) pending"
    by (simp add: asyncio_wait_def comp_def)
  with first_completed_attained [OF 2(1)] have "length pending1 < length pending"
    by (auto intro: length_filter_less)
  moreover have "length pending2 = length pending1"
    using inspect_length [of dn pending1 journal] 2(3-) by (metis fst_conv snd_conv)
  ultimately show ?case by simp
qed

declare manage_loop.simps [simp del]

text \<open>The call: the set-up of the log, then the loop.\<close>

definition manage_asyncio_wait :: "task list \<Rightarrow> orchestration" where
  "manage_asyncio_wait pending = manage_loop pending (logging_options []) []"



section \<open>Properties of the count-based paginator\<close>

lemma requests_from_Suc:
  "requests_from self since offset (Suc n) =
     request_body self since (since + interval self) offset # requests_from self since (offset + 1000) n"
  unfolding requests_from_def
  by (simp add: upt_conv_Cons map_Suc_upt [symmetric] add.assoc del: upt_Suc)

lemma requests_from_snoc:
  "requests_from self since offset (Suc n) =
     requests_from self since offset n @ [request_body self since (since + interval self) (offset + 1000 * n)]"
  by (simp add: requests_from_def)

lemma fetch_loop_full_pages:
  assumes "\<forall>r\<in>set pre. is_page r \<and> 1000 \<le> length (items_of r)"
  shows "fetch_loop self since True offset (pre @ rs) st =
         fetch_loop self since True (offset + 1000 * length pre) rs
           (st\<lparr>sent := sent st @ requests_from self since offset (length pre),
               data := data st @ concat (map items_of pre)\<rparr>)"
  using assms
proof (induction pre arbitrary: offset st)
  case Nil
  then show ?case by (simp add: requests_from_def)
next
  case (Cons r pre)
  from Cons.prems obtain items where r: "\<not> truthy (message r)" "result r = Some items" "1000 \<le> length items"
    by (auto simp: is_page_def items_of_def split: option.splits)
  have pre: "\<forall>r\<in>set pre. is_page r \<and> 1000 \<le> length (items_of r)" using Cons.prems by simp
  have pg: "items_of r = items" using r by (simp add: items_of_def)
  show ?case
    using r by (simp add: Cons.IH [OF pre] requests_from_Suc pg Let_def add.assoc)
qed

lemma fetch_loop_last_page:
  assumes "is_page lst" "length (items_of lst) < 1000"
  shows "fetch_loop self since True offset (lst # post) st =
         (Returned, st\<lparr>sent := sent st @ [request_body self since (since + interval self) offset],
                       data := data st @ items_of lst\<rparr>)"
  using assms by (auto simp: is_page_def items_of_def Let_def split: option.splits)

lemma fetch_full_pages:
  assumes "\<forall>r\<in>set pre. is_page r \<and> 1000 \<le> length (items_of r)"
  shows "fetch self since (pre @ rs) st =
         fetch_loop self since True (1000 * length pre) rs
           (st\<lparr>sent := sent st @ requests_from self since 0 (length pre),
               data := data st @ concat (map items_of pre)\<rparr>)"
  using fetch_loop_full_pages [OF assms, of self since 0 rs st] by (simp add: fetch_def)

text \<open>
  C6.  While the pages hold 1000 items (the limit; the test is that they do not hold
  fewer) the loop goes on: after the pages \<open>pre\<close> it has sent one request more than it got
  answers, at the offsets 0, 1000, 2000, \<dots>, and holds all their items.  The first page
  with fewer than 1000 items ends it: the loop has then sent exactly one request per page,
  the offset having advanced by 1000 each time whatever the pages held, and the buffer holds
  the items of all the pages.  Answers of 1000, 1000 and 437 items are the instance with two
  full pages: 3 requests, 2437 items.
\<close>

theorem count_based_paginator:
  assumes "\<forall>r\<in>set pre. is_page r \<and> 1000 \<le> length (items_of r)"
  shows "fetch self since pre st =
           (Awaiting, \<lparr>data = data st @ concat (map items_of pre),
                       sent = sent st @ requests_from self since 0 (length pre + 1)\<rparr>)
       \<and> (is_page lst \<and> length (items_of lst) < 1000 \<longrightarrow>
           fetch self since (pre @ lst # post) st =
           (Returned, \<lparr>data = data st @ concat (map items_of (pre @ [lst])),
                       sent = sent st @ requests_from self since 0 (length pre + 1)\<rparr>))"
proof -
  let ?st = "st\<lparr>sent := sent st @ requests_from self since 0 (length pre),
                 data := data st @ concat (map items_of pre)\<rparr>"
  have "fetch self since pre st = fetch_loop self since True (1000 * length pre) [] ?st"
    using fetch_full_pages [OF assms, of self since "[]"] by simp
  then have a: "fetch self since pre st =
           (Awaiting, \<lparr>data = data st @ concat (map items_of pre),
                       sent = sent st @ requests_from self since 0 (length pre + 1)\<rparr>)"
    by (simp add: requests_from_snoc)
  have b: "fetch self since (pre @ lst # post) st =
           (Returned, \<lparr>data = data st @ concat (map items_of (pre @ [lst])),
                       sent = sent st @ requests_from self since 0 (length pre + 1)\<rparr>)"
    if "is_page lst" "length (items_of lst) < 1000"
  proof -
    have "fetch self since (pre @ lst # post) st =
          fetch_loop self since True (1000 * length pre) (lst # post) ?st"
      by (rule fetch_full_pages [OF assms])
    also have "\<dots> = (Returned, ?st\<lparr>sent := sent ?st @ [request_body self since (since + interval self) (1000 * length pre)],
                       data := data ?st @ items_of lst\<rparr>)"
      by (rule fetch_loop_last_page [OF that])
    finally show ?thesis by (simp add: requests_from_snoc)
  qed
  from a b show ?thesis by blast
qed

theorem count_based_paginator_witness:
  "(let (res, st) =
      fetch \<lparr>url = ''u'', order_status = '''', interval = 5\<rparr> 0
        [\<lparr>status = 200, message = None, result = Some (replicate 1000 (7::nat))\<rparr>,
         \<lparr>status = 200, message = None, result = Some (replicate 1000 8)\<rparr>,
         \<lparr>status = 200, message = None, result = Some (replicate 437 9)\<rparr>]
        \<lparr>data = [], sent = []\<rparr>
    in res = Returned \<and> length (data st) = 2437 \<and> map req_offset (sent st) = [0, 1000, 2000])"
  using count_based_paginator [where
     pre = "[\<lparr>status = 200, message = None, result = Some (replicate 1000 (7::nat))\<rparr>,
       \<lparr>status = 200, message = None, result = Some (replicate 1000 8)\<rparr>]" and
     lst = "\<lparr>status = 200, message = None, result = Some (replicate 437 9)\<rparr>" and
     self = "\<lparr>url = ''u'', order_status = '''', interval = 5\<rparr>" and since = 0 and post = "[]"
     and st = "\<lparr>data = [], sent = []\<rparr>"]
  by (simp add: is_page_def items_of_def requests_from_def request_body_def upt_rec)

lemma fetch_loop_error:
  assumes "truthy (message r)"
  shows "fetch_loop self since True offset (r # post) st =
         (Raised (Exception (status r) (the (message r))),
          st\<lparr>sent := sent st @ [request_body self since (since + interval self) offset]\<rparr>)"
  using assms by (simp add: Let_def)

text \<open>
  An answer that carries a non-empty \<^verbatim>\<open>message\<close> aborts the loop at once: no further
  request is sent, whatever answers would follow, and the pages received before stay in the
  buffer.  The exception raised is the generic \<^verbatim>\<open>Exception\<close> built from the HTTP status
  and the message of that answer; it is the same whatever the address of the endpoint is.
\<close>

lemma error_payload_aborts:
  assumes "\<forall>p\<in>set pre. is_page p \<and> 1000 \<le> length (items_of p)" and "truthy (message r)"
  shows "fetch self since (pre @ r # post) st =
           (Raised (Exception (status r) (the (message r))),
            \<lparr>data = data st @ concat (map items_of pre),
             sent = sent st @ requests_from self since 0 (length pre + 1)\<rparr>)
       \<and> fst (fetch (self\<lparr>url := u\<rparr>) since (pre @ r # post) st) =
         fst (fetch self since (pre @ r # post) st)"
proof -
  have eq: "fetch self since (pre @ r # post) st =
           (Raised (Exception (status r) (the (message r))),
            \<lparr>data = data st @ concat (map items_of pre),
             sent = sent st @ requests_from self since 0 (length pre + 1)\<rparr>)" for self
  proof -
    let ?st = "st\<lparr>sent := sent st @ requests_from self since 0 (length pre),
                   data := data st @ concat (map items_of pre)\<rparr>"
    have "fetch self since (pre @ r # post) st =
          fetch_loop self since True (1000 * length pre) (r # post) ?st"
      by (rule fetch_full_pages [OF assms(1)])
    also have "\<dots> = (Raised (Exception (status r) (the (message r))),
          ?st\<lparr>sent := sent ?st @ [request_body self since (since + interval self) (1000 * length pre)]\<rparr>)"
      by (rule fetch_loop_error [OF assms(2)])
    finally show ?thesis by (simp add: requests_from_snoc)
  qed
  show ?thesis by (simp add: eq)
qed

text \<open>
  C2, at inputs the code receives.  An answer with status 500 that carries no
  \<^verbatim>\<open>message\<close> does not abort the loop: its items are taken as a last page and the
  coroutine returns.  An answer with status 404 and a message ends the coroutine with the
  generic \<^verbatim>\<open>Exception\<close> of the status and the message: the address of the endpoint is
  not in it, and it is no \<^verbatim>\<open>APIError\<close>.
\<close>

theorem fetch_tests_message_only:
  "fetch \<lparr>url = ''u'', order_status = '''', interval = 5\<rparr> 0
     [\<lparr>status = 500, message = None, result = Some [7::nat]\<rparr>]
     \<lparr>data = [], sent = []\<rparr>
   = (Returned, \<lparr>data = [7],
                 sent = [\<lparr>req_url = ''u'', req_since = 0, req_to = 5, req_status = '''',
                          req_limit = 1000, req_offset = 0\<rparr>]\<rparr>)
   \<and> fst (fetch \<lparr>url = ''https://api-seller.ozon.ru/v2/posting/fbo/list'', order_status = '''',
                  interval = 5\<rparr> 0
          [\<lparr>status = 404, message = Some ''not found'', result = None :: nat list option\<rparr>]
          \<lparr>data = [], sent = []\<rparr>)
     = Raised (Exception 404 ''not found'')"
  by (simp add: fetch_def request_body_def)

text \<open>
  A full page followed by an answer with an error message: the coroutine raises, and the
  1000 items of the first page are in \<^verbatim>\<open>self.data\<close>.
\<close>

theorem partial_data_kept:
  "(let (res, st) =
      fetch \<lparr>url = ''u'', order_status = '''', interval = 5\<rparr> 0
        [\<lparr>status = 200, message = None, result = Some (replicate 1000 (7::nat))\<rparr>,
         \<lparr>status = 500, message = Some ''boom'', result = None\<rparr>]
        \<lparr>data = [], sent = []\<rparr>
    in res = Raised (Exception 500 ''boom'') \<and> data st = replicate 1000 7)"
  by (simp add: fetch_def)

lemma fetch_loop_data:
  "\<exists>n\<le>length rs. (\<forall>p\<in>set (take n rs). is_page p)
      \<and> data (snd (fetch_loop self since sw offset rs st)) = data st @ concat (map items_of (take n rs))
      \<and> (\<forall>e. fst (fetch_loop self since sw offset rs st) = Raised e \<longrightarrow> n < length rs \<and> \<not> is_page (rs ! n))"
proof (induction self since sw offset rs st rule: fetch_loop.induct)
  case (1 self since offset rs st)
  show ?case by (rule exI [of _ 0]) simp
next
  case (2 self since offset st)
  show ?case by simp
next
  case (3 self since offset r rs st)
  show ?case
  proof (cases "is_page r")
    case False
    then have "\<exists>e. fetch_loop self since True offset (r # rs) st =
       (Raised e, st\<lparr>sent := sent st @ [request_body self since (since + interval self) offset]\<rparr>)"
      by (auto simp: is_page_def Let_def split: option.splits)
    then show ?thesis using False by (intro exI [of _ 0]) auto
  next
    case True
    then obtain items where r: "\<not> truthy (message r)" "result r = Some items"
      by (auto simp: is_page_def)
    let ?st = "st\<lparr>sent := sent st @ [request_body self since (since + interval self) offset],
                   data := data st @ items\<rparr>"
    have step: "fetch_loop self since True offset (r # rs) st =
                fetch_loop self since (\<not> length items < 1000) (offset + 1000) rs ?st"
      using r by (simp add: Let_def)
    from "3.IH" [OF refl r(1) r(2)] obtain n where n: "n \<le> length rs"
      "\<forall>p\<in>set (take n rs). is_page p"
      "data (snd (fetch_loop self since (\<not> length items < 1000) (offset + 1000) rs ?st))
         = data ?st @ concat (map items_of (take n rs))"
      "\<forall>e. fst (fetch_loop self since (\<not> length items < 1000) (offset + 1000) rs ?st) = Raised e
          \<longrightarrow> n < length rs \<and> \<not> is_page (rs ! n)"
      by (auto simp: Let_def)
    have it: "items_of r = items" using r by (simp add: items_of_def)
    show ?thesis
      apply (rule exI [of _ "Suc n"])
      using n True unfolding step by (simp add: it del: fetch_loop.simps)
  qed
qed

text \<open>
  One coroutine on its own: when it raises, the answers split into the pages before the
  failing answer and the rest, and the buffer holds what it held when the task began,
  followed by the items of every page before the failing answer.
\<close>

lemma failure_keeps_earlier_pages:
  assumes "fst (fetch self since rs st) = Raised e"
  shows "\<exists>pre r post. rs = pre @ r # post \<and> (\<forall>p\<in>set pre. is_page p) \<and> \<not> is_page r
           \<and> data (snd (fetch self since rs st)) = data st @ concat (map items_of pre)"
proof -
  from fetch_loop_data [of rs self since True 0 st] assms obtain n where n: "n < length rs"
    "\<forall>p\<in>set (take n rs). is_page p" "\<not> is_page (rs ! n)"
    "data (snd (fetch self since rs st)) = data st @ concat (map items_of (take n rs))"
    by (auto simp: fetch_def)
  have "rs = take n rs @ rs ! n # drop (Suc n) rs"
    using n(1) by (simp add: id_take_nth_drop)
  with n show ?thesis by blast
qed

subsection \<open>The fan-out on the shared buffer\<close>

lemma run_Nil [simp]: "run self [] w = w"
  by (simp add: run_def)

lemma run_Cons [simp]: "run self (ev # events) w = run self events (deliver self ev w)"
  by (simp add: run_def)

lemma run_append: "run self (es @ es') w = run self es' (run self es w)"
  by (simp add: run_def)

lemma fetch_iteration_buffer:
  "snd (fetch_iteration self r c buffer) = (if is_page r then buffer @ items_of r else buffer)"
  by (auto simp: fetch_iteration_def is_page_def items_of_def Let_def split: option.splits)

lemma fetch_iteration_failed:
  "\<not> is_page r \<Longrightarrow> \<exists>e. co_standing (fst (fetch_iteration self r c buffer)) = Raised e"
  by (auto simp: fetch_iteration_def is_page_def split: option.splits)

lemma deliver_grows: "\<exists>items. self_data (deliver self ev w) = self_data w @ items"
proof (cases ev)
  case (Answer i r)
  show ?thesis
  proof (cases "suspended w i")
    case True
    obtain c buffer where f: "fetch_iteration self r (coroutines w ! i) (self_data w) = (c, buffer)"
      by (cases "fetch_iteration self r (coroutines w ! i) (self_data w)")
    with fetch_iteration_buffer [of self r "coroutines w ! i" "self_data w"]
    have "buffer = (if is_page r then self_data w @ items_of r else self_data w)" by simp
    with True f Answer show ?thesis by auto
  next
    case False
    with Answer show ?thesis by simp
  qed
next
  case (Cancel i)
  then show ?thesis by simp
qed

lemma run_grows: "\<exists>items. self_data (run self events w) = self_data w @ items"
proof (induction events arbitrary: w)
  case Nil
  show ?case by simp
next
  case (Cons ev events)
  from deliver_grows [of self ev w] obtain xs where
    xs: "self_data (deliver self ev w) = self_data w @ xs" by blast
  from Cons [of "deliver self ev w"] obtain ys where
    "self_data (run self events (deliver self ev w)) = self_data (deliver self ev w) @ ys" by blast
  with xs show ?case by simp
qed

lemma run_received: "self_data (run self events w) = self_data w @ received self events w"
proof (induction self events w rule: received.induct)
  case (1 self w)
  show ?case by simp
next
  case (2 self i r events w)
  obtain c buffer where f: "fetch_iteration self r (coroutines w ! i) (self_data w) = (c, buffer)"
    by (cases "fetch_iteration self r (coroutines w ! i) (self_data w)")
  with fetch_iteration_buffer [of self r "coroutines w ! i" "self_data w"]
  have b: "buffer = (if is_page r then self_data w @ items_of r else self_data w)" by simp
  have "self_data (deliver self (Answer i r) w) =
        self_data w @ (if suspended w i \<and> is_page r then items_of r else [])"
    using f b by simp
  with 2 show ?case by simp
next
  case (3 self i events w)
  then show ?case by simp
qed

lemma run_not_suspended:
  "\<not> suspended w 0 \<Longrightarrow> run self (map (Answer 0) rs) w = w"
  by (induction rs) simp_all

lemma run_single_task:
  assumes "co_standing c = Awaiting"
    and "co_sent c = s @ [request_body self (co_since c) (co_since c + interval self) (co_offset c)]"
  shows "self_data (run self (map (Answer 0) rs) \<lparr>coroutines = [c], self_data = buffer\<rparr>)
           = data (snd (fetch_loop self (co_since c) True (co_offset c) rs \<lparr>data = buffer, sent = s\<rparr>))
       \<and> map co_standing (coroutines (run self (map (Answer 0) rs) \<lparr>coroutines = [c], self_data = buffer\<rparr>))
           = [fst (fetch_loop self (co_since c) True (co_offset c) rs \<lparr>data = buffer, sent = s\<rparr>)]
       \<and> map co_sent (coroutines (run self (map (Answer 0) rs) \<lparr>coroutines = [c], self_data = buffer\<rparr>))
           = [sent (snd (fetch_loop self (co_since c) True (co_offset c) rs \<lparr>data = buffer, sent = s\<rparr>))]"
  using assms
proof (induction rs arbitrary: c s buffer)
  case Nil
  then show ?case by simp
next
  case (Cons r rs)
  let ?w = "\<lparr>coroutines = [c], self_data = buffer\<rparr>"
  have susp: "suspended ?w 0" using Cons.prems(1) by (simp add: suspended_def)
  show ?case
  proof (cases "is_page r")
    case False
    define e where "e = (if truthy (message r) then Exception (status r) (the (message r)) else KeyError)"
    from False have nr: "\<not> truthy (message r) \<Longrightarrow> result r = None"
      by (simp add: is_page_def)
    have e: "fetch_iteration self r c buffer = (c\<lparr>co_standing := Raised e\<rparr>, buffer)"
      "fetch_loop self (co_since c) True (co_offset c) (r # rs) \<lparr>data = buffer, sent = s\<rparr> =
         (Raised e, \<lparr>data = buffer, sent = co_sent c\<rparr>)"
      using Cons.prems(2) nr by (simp_all add: fetch_iteration_def e_def Let_def)
    let ?w1 = "\<lparr>coroutines = [c\<lparr>co_standing := Raised e\<rparr>], self_data = buffer\<rparr>"
    have d: "deliver self (Answer 0 r) ?w = ?w1" using susp e(1) by simp
    have "\<not> suspended ?w1 0" by (simp add: suspended_def)
    from run_not_suspended [OF this, of self rs] d e(2) show ?thesis by simp
  next
    case True
    then obtain items where r: "\<not> truthy (message r)" "result r = Some items"
      by (auto simp: is_page_def)
    show ?thesis
    proof (cases "length items < 1000")
      case True
      let ?c1 = "c\<lparr>co_offset := co_offset c + 1000, co_standing := Returned\<rparr>"
      let ?w1 = "\<lparr>coroutines = [?c1], self_data = buffer @ items\<rparr>"
      have d: "deliver self (Answer 0 r) ?w = ?w1"
        using susp r True by (simp add: fetch_iteration_def Let_def)
      have f: "fetch_loop self (co_since c) True (co_offset c) (r # rs) \<lparr>data = buffer, sent = s\<rparr> =
            (Returned, \<lparr>data = buffer @ items, sent = co_sent c\<rparr>)"
        using r True Cons.prems(2) by (simp add: Let_def)
      have "\<not> suspended ?w1 0" by (simp add: suspended_def)
      from run_not_suspended [OF this, of self rs] d f show ?thesis by simp
    next
      case False
      let ?c1 = "c\<lparr>co_offset := co_offset c + 1000,
                    co_sent := co_sent c @
                      [request_body self (co_since c) (co_since c + interval self) (co_offset c + 1000)]\<rparr>"
      let ?w1 = "\<lparr>coroutines = [?c1], self_data = buffer @ items\<rparr>"
      have d: "deliver self (Answer 0 r) ?w = ?w1"
        using susp r False by (simp add: fetch_iteration_def Let_def)
      have f: "fetch_loop self (co_since c) True (co_offset c) (r # rs) \<lparr>data = buffer, sent = s\<rparr> =
            fetch_loop self (co_since ?c1) True (co_offset ?c1) rs \<lparr>data = buffer @ items, sent = co_sent c\<rparr>"
        using r False Cons.prems(2) by (simp add: Let_def)
      have "co_standing ?c1 = Awaiting" using Cons.prems(1) by simp
      moreover have "co_sent ?c1 = co_sent c @
          [request_body self (co_since ?c1) (co_since ?c1 + interval self) (co_offset ?c1)]" by simp
      ultimately show ?thesis
        using Cons.IH [of ?c1 "co_sent c" "buffer @ items"] d f by simp
    qed
  qed
qed

text \<open>
  A run of one window is the paginator of the sections above: the buffer, the standing of
  the task and its requests are those of \<^const>\<open>fetch\<close> on the same answers.
\<close>

lemma run_one_window_is_fetch:
  "self_data (run self (map (Answer 0) rs) (main_start self 1 since buffer))
     = data (snd (fetch self since rs \<lparr>data = buffer, sent = []\<rparr>))
   \<and> map co_standing (coroutines (run self (map (Answer 0) rs) (main_start self 1 since buffer)))
     = [fst (fetch self since rs \<lparr>data = buffer, sent = []\<rparr>)]
   \<and> map co_sent (coroutines (run self (map (Answer 0) rs) (main_start self 1 since buffer)))
     = [sent (snd (fetch self since rs \<lparr>data = buffer, sent = []\<rparr>))]"
  using run_single_task [of "create_task self since" "[]" self rs buffer]
  by (simp add: main_start_def fetch_def create_task_def numeral_eq_Suc)

text \<open>
  C3 (as the code has it).  Nothing is discarded, in any run.  Whatever the order in which
  the answers of the window tasks arrive and cancellations take effect, the shared buffer
  \<^verbatim>\<open>self.data\<close> after the events is the buffer before them followed by every page received
  in between, in the order of arrival.  A page that arrives for a suspended task is appended
  as it arrives.  An answer that makes a task fail leaves the buffer as it is, with the
  earlier pages of the failed task and the pages of its sibling tasks in it, and the events
  that follow only add to it.  A cancellation leaves the buffer as it is.
\<close>

theorem shared_buffer_never_shrinks:
  "self_data (run self events w) = self_data w @ received self events w
   \<and> (suspended w i \<and> is_page r \<longrightarrow>
        self_data (deliver self (Answer i r) w) = self_data w @ items_of r)
   \<and> (suspended w i \<and> \<not> is_page r \<longrightarrow>
        self_data (deliver self (Answer i r) w) = self_data w
        \<and> (\<exists>e. co_standing (coroutines (deliver self (Answer i r) w) ! i) = Raised e)
        \<and> self_data (run self events (deliver self (Answer i r) w))
            = self_data w @ received self events (deliver self (Answer i r) w))
   \<and> self_data (deliver self (Cancel i) w) = self_data w"
proof (intro conjI impI)
  show "self_data (run self events w) = self_data w @ received self events w"
    by (rule run_received)
next
  assume a: "suspended w i \<and> is_page r"
  obtain c buffer where f: "fetch_iteration self r (coroutines w ! i) (self_data w) = (c, buffer)"
    by (cases "fetch_iteration self r (coroutines w ! i) (self_data w)")
  with fetch_iteration_buffer [of self r "coroutines w ! i" "self_data w"] a
  have "buffer = self_data w @ items_of r" by simp
  with a f show "self_data (deliver self (Answer i r) w) = self_data w @ items_of r" by simp
next
  assume a: "suspended w i \<and> \<not> is_page r"
  obtain c buffer where f: "fetch_iteration self r (coroutines w ! i) (self_data w) = (c, buffer)"
    by (cases "fetch_iteration self r (coroutines w ! i) (self_data w)")
  with fetch_iteration_buffer [of self r "coroutines w ! i" "self_data w"] a
  have b: "buffer = self_data w" by simp
  with a f show d: "self_data (deliver self (Answer i r) w) = self_data w" by simp
  from fetch_iteration_failed [of r self "coroutines w ! i" "self_data w"] a f
  obtain e where "co_standing c = Raised e" by auto
  with a f show "\<exists>e. co_standing (coroutines (deliver self (Answer i r) w) ! i) = Raised e"
    by (simp add: suspended_def)
  from run_received [of self events "deliver self (Answer i r) w"] d
  show "self_data (run self events (deliver self (Answer i r) w))
          = self_data w @ received self events (deliver self (Answer i r) w)"
    by simp
next
  show "self_data (deliver self (Cancel i) w) = self_data w" by simp
qed

theorem shared_buffer_never_shrinks_witness:
  "self_data (run \<lparr>url = ''u'', order_status = '''', interval = 5\<rparr>
       [Answer 0 \<lparr>status = 200, message = None, result = Some (replicate 1000 (7::nat))\<rparr>,
        Answer 1 \<lparr>status = 200, message = None, result = Some [8, 8]\<rparr>,
        Answer 0 \<lparr>status = 500, message = Some ''boom'', result = None\<rparr>]
       (main_start \<lparr>url = ''u'', order_status = '''', interval = 5\<rparr> 2 0 []))
     = replicate 1000 7 @ [8, 8]
   \<and> map co_standing (coroutines (run \<lparr>url = ''u'', order_status = '''', interval = 5\<rparr>
       [Answer 0 \<lparr>status = 200, message = None, result = Some (replicate 1000 (7::nat))\<rparr>,
        Answer 1 \<lparr>status = 200, message = None, result = Some [8, 8]\<rparr>,
        Answer 0 \<lparr>status = 500, message = Some ''boom'', result = None\<rparr>]
       (main_start \<lparr>url = ''u'', order_status = '''', interval = 5\<rparr> 2 0 [])))
     = [Raised (Exception 500 ''boom''), Returned]
   \<and> self_data (deliver \<lparr>url = ''u'', order_status = '''', interval = 5\<rparr>
         (Answer 1 \<lparr>status = 200, message = None, result = Some [8, 8 :: nat]\<rparr>)
         (main_start \<lparr>url = ''u'', order_status = '''', interval = 5\<rparr> 2 0 [9]))
     = [9, 8, 8]"
proof -
  let ?self = "\<lparr>url = ''u'', order_status = '''', interval = 5\<rparr>"
  let ?a = "\<lparr>status = 200, message = None, result = Some (replicate 1000 (7::nat))\<rparr>"
  let ?b = "\<lparr>status = 200, message = None, result = Some [8, 8 :: nat]\<rparr>"
  let ?e = "\<lparr>status = 500, message = Some ''boom'', result = None :: nat list option\<rparr>"
  let ?w0 = "main_start ?self 2 0 ([] :: nat list)"
  let ?w1 = "run ?self [Answer 0 ?a, Answer 1 ?b] ?w0"
  have w1: "?w1 = \<lparr>coroutines =
        [\<lparr>co_since = 0, co_offset = 1000, co_standing = Awaiting,
          co_sent = [request_body ?self 0 5 0, request_body ?self 0 5 1000]\<rparr>,
         \<lparr>co_since = 1000000005, co_offset = 1000, co_standing = Returned,
          co_sent = [request_body ?self 1000000005 1000000010 0]\<rparr>],
       self_data = replicate 1000 7 @ [8, 8]\<rparr>"
    by (simp add: main_start_def create_task_def numeral_2_eq_2 suspended_def fetch_iteration_def)
  have h: "suspended ?w1 0 \<and> \<not> is_page ?e"
    unfolding w1 by (simp add: suspended_def is_page_def)
  note t = shared_buffer_never_shrinks [of ?self "[]" ?w1 0 ?e, THEN conjunct2, THEN conjunct2,
      THEN conjunct1, THEN mp, OF h]
  from t have d: "self_data (deliver ?self (Answer 0 ?e) ?w1) = replicate 1000 7 @ [8, 8]"
    unfolding w1 by simp
  have r: "run ?self [Answer 0 ?a, Answer 1 ?b, Answer 0 ?e] ?w0 = deliver ?self (Answer 0 ?e) ?w1"
    by simp
  have s: "map co_standing (coroutines (deliver ?self (Answer 0 ?e) ?w1))
        = [Raised (Exception 500 ''boom''), Returned]"
    unfolding w1 by (simp add: suspended_def fetch_iteration_def)
  let ?w9 = "main_start ?self 2 0 [9 :: nat]"
  have g: "suspended ?w9 1 \<and> is_page ?b"
    by (simp add: main_start_def create_task_def numeral_2_eq_2 suspended_def is_page_def)
  note u = shared_buffer_never_shrinks [of ?self "[]" ?w9 1 ?b, THEN conjunct2, THEN conjunct1,
      THEN mp, OF g]
  from u have p: "self_data (deliver ?self (Answer 1 ?b) ?w9) = [9, 8, 8]"
    by (simp add: main_start_def items_of_def)
  from d s p show ?thesis unfolding r by simp
qed

section \<open>Properties of the page-count paginator\<close>

lemma fin_requests_from_Suc:
  "fin_requests_from self ds dt page (Suc n) =
     fin_request_body self ds dt page # fin_requests_from self ds dt (page + 1) n"
  unfolding fin_requests_from_def
  by (simp add: upt_conv_Cons map_Suc_upt [symmetric] add.assoc del: upt_Suc)

lemma fin_fetch_loop_runs_on:
  assumes "\<forall>i<length rs. is_page (rs ! i) \<and> page_count_of (rs ! i) \<noteq> page + int i"
  shows "fin_fetch_loop self ds dt True page rs st =
         (Awaiting, st\<lparr>sent := sent st @ fin_requests_from self ds dt page (length rs + 1),
                       data := data st @ concat (map operations_of rs)\<rparr>)"
  using assms
proof (induction rs arbitrary: page st)
  case Nil
  show ?case by (simp add: fin_requests_from_def)
next
  case (Cons r rs)
  from Cons.prems [rule_format, of 0] obtain res where
    r: "\<not> truthy (message r)" "result r = Some res" "page_count res \<noteq> page"
    by (auto simp: is_page_def page_count_of_def)
  have rest: "\<forall>i<length rs. is_page (rs ! i) \<and> page_count_of (rs ! i) \<noteq> page + 1 + int i"
  proof (intro allI impI)
    fix i assume "i < length rs"
    with Cons.prems [rule_format, of "Suc i"] show
      "is_page (rs ! i) \<and> page_count_of (rs ! i) \<noteq> page + 1 + int i"
      by (simp add: add.assoc)
  qed
  have ops: "operations_of r = operations res" using r by (simp add: operations_of_def)
  have step: "fin_fetch_loop self ds dt True page (r # rs) st =
        fin_fetch_loop self ds dt True (page + 1) rs
          (st\<lparr>sent := sent st @ [fin_request_body self ds dt page],
              data := data st @ operations res\<rparr>)"
    using r by (auto simp: Let_def)
  show ?case
    unfolding step Cons.IH [OF rest]
    by (simp add: fin_requests_from_Suc ops)
qed

lemma fin_fetch_loop_returned:
  assumes "fst (fin_fetch_loop self ds dt True page rs st) = Returned"
  shows "\<exists>i<length rs. is_page (rs ! i) \<and> page_count_of (rs ! i) = page + int i"
  using assms
proof (induction rs arbitrary: page st)
  case Nil
  then show ?case by simp
next
  case (Cons r rs)
  from Cons.prems obtain res where r: "\<not> truthy (message r)" "result r = Some res"
    by (auto simp: Let_def split: if_splits option.splits)
  then have pg: "is_page r" "page_count_of r = page_count res"
    by (simp_all add: is_page_def page_count_of_def)
  show ?case
  proof (cases "page = page_count res")
    case True
    with pg show ?thesis by (intro exI [of _ 0]) simp
  next
    case False
    with Cons.prems r have "fst (fin_fetch_loop self ds dt True (page + 1) rs
          (st\<lparr>sent := sent st @ [fin_request_body self ds dt page],
              data := data st @ operations res\<rparr>)) = Returned"
      by (simp add: Let_def)
    from Cons.IH [OF this] obtain i where "i < length rs" "is_page (rs ! i)"
      "page_count_of (rs ! i) = page + 1 + int i" by blast
    then show ?thesis by (intro exI [of _ "Suc i"]) (simp add: add.assoc)
  qed
qed

lemma fin_fetch_loop_stops:
  assumes "\<forall>i<length pre. is_page (pre ! i) \<and> page_count_of (pre ! i) \<noteq> page + int i"
    and "is_page r" and "page_count_of r = page + int (length pre)"
  shows "fin_fetch_loop self ds dt True page (pre @ r # post) st =
         (Returned, st\<lparr>sent := sent st @ fin_requests_from self ds dt page (length pre + 1),
                       data := data st @ concat (map operations_of (pre @ [r]))\<rparr>)"
  using assms
proof (induction pre arbitrary: page st)
  case Nil
  then obtain res where "\<not> truthy (message r)" "result r = Some res" "page_count res = page"
    by (auto simp: is_page_def page_count_of_def)
  then show ?case
    by (simp add: fin_requests_from_def operations_of_def Let_def)
next
  case (Cons p pre)
  from Cons.prems(1) [rule_format, of 0] obtain res where
    p: "\<not> truthy (message p)" "result p = Some res" "page_count res \<noteq> page"
    by (auto simp: is_page_def page_count_of_def)
  have rest: "\<forall>i<length pre. is_page (pre ! i) \<and> page_count_of (pre ! i) \<noteq> page + 1 + int i"
  proof (intro allI impI)
    fix i assume "i < length pre"
    with Cons.prems(1) [rule_format, of "Suc i"] show
      "is_page (pre ! i) \<and> page_count_of (pre ! i) \<noteq> page + 1 + int i"
      by (simp add: add.assoc)
  qed
  have last: "page_count_of r = page + 1 + int (length pre)"
    using Cons.prems(3) by simp
  have ops: "operations_of p = operations res" using p by (simp add: operations_of_def)
  have step: "fin_fetch_loop self ds dt True page ((p # pre) @ r # post) st =
        fin_fetch_loop self ds dt True (page + 1) (pre @ r # post)
          (st\<lparr>sent := sent st @ [fin_request_body self ds dt page],
              data := data st @ operations res\<rparr>)"
    using p by (auto simp: Let_def)
  show ?case
    unfolding step Cons.IH [OF rest Cons.prems(2) last]
    by (simp add: fin_requests_from_Suc ops)
qed

text \<open>
  C10 (as the code has it).  The loop stops exactly at the first answer whose page count
  equals the page just requested.  If every answer reports a page count different from the
  number of its page (0 on every answer, say, or a count the counter has already passed),
  then after the answers \<open>rs\<close> the loop has sent one more request, for page
  \<open>length rs + 1\<close>, and waits: however many answers arrive, it asks for another page.
  If the coroutine returns, some answer (not every answer) reported a page count of at
  least 1 and equal to the number of its own page.  And an answer that does so, after
  answers that do not, ends the loop there, whatever the earlier answers reported.
\<close>

theorem page_count_loop_termination:
  "((\<forall>i<length rs. is_page (rs ! i) \<and> page_count_of (rs ! i) \<noteq> int i + 1) \<longrightarrow>
      fin_fetch self date_since date_to rs st =
        (Awaiting, \<lparr>data = data st @ concat (map operations_of rs),
                    sent = sent st @ fin_requests_from self date_since date_to 1 (length rs + 1)\<rparr>))
   \<and> (fst (fin_fetch self date_since date_to rs st) = Returned \<longrightarrow>
        (\<exists>i<length rs. is_page (rs ! i) \<and> page_count_of (rs ! i) = int i + 1 \<and> 1 \<le> page_count_of (rs ! i)))
   \<and> ((\<forall>i<length pre. is_page (pre ! i) \<and> page_count_of (pre ! i) \<noteq> int i + 1)
        \<and> is_page r \<and> page_count_of r = int (length pre) + 1 \<longrightarrow>
      fin_fetch self date_since date_to (pre @ r # post) st =
        (Returned, \<lparr>data = data st @ concat (map operations_of (pre @ [r])),
                    sent = sent st @ fin_requests_from self date_since date_to 1 (length pre + 1)\<rparr>))"
proof (intro conjI impI)
  assume "\<forall>i<length rs. is_page (rs ! i) \<and> page_count_of (rs ! i) \<noteq> int i + 1"
  then have "\<forall>i<length rs. is_page (rs ! i) \<and> page_count_of (rs ! i) \<noteq> 1 + int i"
    by (simp add: add.commute)
  from fin_fetch_loop_runs_on [OF this, of self date_since date_to st]
  show "fin_fetch self date_since date_to rs st =
        (Awaiting, \<lparr>data = data st @ concat (map operations_of rs),
                    sent = sent st @ fin_requests_from self date_since date_to 1 (length rs + 1)\<rparr>)"
    by (simp add: fin_fetch_def)
next
  assume "fst (fin_fetch self date_since date_to rs st) = Returned"
  then have "fst (fin_fetch_loop self date_since date_to True 1 rs st) = Returned"
    by (simp add: fin_fetch_def)
  from fin_fetch_loop_returned [OF this] obtain i where
    "i < length rs" "is_page (rs ! i)" "page_count_of (rs ! i) = 1 + int i" by blast
  then show "\<exists>i<length rs. is_page (rs ! i) \<and> page_count_of (rs ! i) = int i + 1 \<and> 1 \<le> page_count_of (rs ! i)"
    by (intro exI [of _ i]) simp
next
  assume a: "(\<forall>i<length pre. is_page (pre ! i) \<and> page_count_of (pre ! i) \<noteq> int i + 1)
        \<and> is_page r \<and> page_count_of r = int (length pre) + 1"
  then have "\<forall>i<length pre. is_page (pre ! i) \<and> page_count_of (pre ! i) \<noteq> 1 + int i"
    "is_page r" "page_count_of r = 1 + int (length pre)"
    by (simp_all add: add.commute)
  from fin_fetch_loop_stops [OF this, of self date_since date_to post st]
  show "fin_fetch self date_since date_to (pre @ r # post) st =
        (Returned, \<lparr>data = data st @ concat (map operations_of (pre @ [r])),
                    sent = sent st @ fin_requests_from self date_since date_to 1 (length pre + 1)\<rparr>)"
    by (simp add: fin_fetch_def)
qed

theorem page_count_loop_termination_witness:
  "fin_fetch \<lparr>fin_url = ''u'', transaction_type = ''all''\<rparr> 0 5
     [\<lparr>status = 200, message = None, result = Some \<lparr>operations = [], page_count = 0\<rparr>\<rparr>,
      \<lparr>status = 200, message = None, result = Some \<lparr>operations = [] :: nat list, page_count = 0\<rparr>\<rparr>]
     \<lparr>data = [], sent = []\<rparr>
   = (Awaiting, \<lparr>data = [],
        sent = map (\<lambda>p. \<lparr>freq_url = ''u'', freq_from = 0, freq_to = 5, freq_transaction_type = ''all'',
                            freq_page = p, freq_page_size = 1000\<rparr>) [1, 2, 3]\<rparr>)
   \<and> fin_fetch \<lparr>fin_url = ''u'', transaction_type = ''all''\<rparr> 0 5
     [\<lparr>status = 200, message = None, result = Some \<lparr>operations = [7], page_count = 2\<rparr>\<rparr>,
      \<lparr>status = 200, message = None, result = Some \<lparr>operations = [8 :: nat], page_count = 2\<rparr>\<rparr>,
      \<lparr>status = 200, message = None, result = Some \<lparr>operations = [9 :: nat], page_count = 2\<rparr>\<rparr>]
     \<lparr>data = [], sent = []\<rparr>
   = (Returned, \<lparr>data = [7, 8],
        sent = map (\<lambda>p. \<lparr>freq_url = ''u'', freq_from = 0, freq_to = 5, freq_transaction_type = ''all'',
                            freq_page = p, freq_page_size = 1000\<rparr>) [1, 2]\<rparr>)
   \<and> (\<exists>i<3. page_count_of
        ([\<lparr>status = 200, message = None, result = Some \<lparr>operations = [7], page_count = 2\<rparr>\<rparr>,
          \<lparr>status = 200, message = None, result = Some \<lparr>operations = [8 :: nat], page_count = 2\<rparr>\<rparr>,
          \<lparr>status = 200, message = None, result = Some \<lparr>operations = [9 :: nat], page_count = 2\<rparr>\<rparr>] ! i)
        = int i + 1)"
proof -
  let ?self = "\<lparr>fin_url = ''u'', transaction_type = ''all''\<rparr>"
  let ?st = "\<lparr>data = [] :: nat list, sent = [] :: fin_request list\<rparr>"
  let ?rs1 = "[\<lparr>status = 200, message = None, result = Some \<lparr>operations = [], page_count = 0\<rparr>\<rparr>,
      \<lparr>status = 200, message = None, result = Some \<lparr>operations = [] :: nat list, page_count = 0\<rparr>\<rparr>]"
  let ?p1 = "\<lparr>status = 200, message = None, result = Some \<lparr>operations = [7 :: nat], page_count = 2\<rparr>\<rparr>"
  let ?p2 = "\<lparr>status = 200, message = None, result = Some \<lparr>operations = [8 :: nat], page_count = 2\<rparr>\<rparr>"
  let ?p3 = "\<lparr>status = 200, message = None, result = Some \<lparr>operations = [9 :: nat], page_count = 2\<rparr>\<rparr>"
  have b: "\<forall>i<length ?rs1. is_page (?rs1 ! i) \<and> page_count_of (?rs1 ! i) \<noteq> int i + 1"
    by (simp add: less_Suc_eq is_page_def page_count_of_def)
  have w1: "fin_fetch ?self 0 5 ?rs1 ?st =
      (Awaiting, \<lparr>data = data ?st @ concat (map operations_of ?rs1),
                  sent = sent ?st @ fin_requests_from ?self 0 5 1 (length ?rs1 + 1)\<rparr>)"
    by (rule page_count_loop_termination [THEN conjunct1, THEN mp, OF b])
  have c: "(\<forall>i<length [?p1]. is_page ([?p1] ! i) \<and> page_count_of ([?p1] ! i) \<noteq> int i + 1)
        \<and> is_page ?p2 \<and> page_count_of ?p2 = int (length [?p1]) + 1"
    by (simp add: is_page_def page_count_of_def)
  have w3: "fin_fetch ?self 0 5 ([?p1] @ ?p2 # [?p3]) ?st =
      (Returned, \<lparr>data = data ?st @ concat (map operations_of ([?p1] @ [?p2])),
                  sent = sent ?st @ fin_requests_from ?self 0 5 1 (length [?p1] + 1)\<rparr>)"
    by (rule page_count_loop_termination [THEN conjunct2, THEN conjunct2, THEN mp, OF c])
  then have w3': "fin_fetch ?self 0 5 [?p1, ?p2, ?p3] ?st = (Returned, \<lparr>data = [7, 8],
        sent = map (\<lambda>p. \<lparr>freq_url = ''u'', freq_from = 0, freq_to = 5, freq_transaction_type = ''all'',
                            freq_page = p, freq_page_size = 1000\<rparr>) [1, 2]\<rparr>)"
    by (simp add: operations_of_def fin_requests_from_def fin_request_body_def upt_rec)
  then have a: "fst (fin_fetch ?self 0 5 [?p1, ?p2, ?p3] ?st) = Returned" by simp
  have w2: "\<exists>i<length [?p1, ?p2, ?p3]. is_page ([?p1, ?p2, ?p3] ! i)
              \<and> page_count_of ([?p1, ?p2, ?p3] ! i) = int i + 1
              \<and> 1 \<le> page_count_of ([?p1, ?p2, ?p3] ! i)"
    by (rule page_count_loop_termination [THEN conjunct2, THEN conjunct1, THEN mp, OF a])
  have w1': "fin_fetch ?self 0 5 ?rs1 ?st = (Awaiting, \<lparr>data = [],
        sent = map (\<lambda>p. \<lparr>freq_url = ''u'', freq_from = 0, freq_to = 5, freq_transaction_type = ''all'',
                            freq_page = p, freq_page_size = 1000\<rparr>) [1, 2, 3]\<rparr>)"
    unfolding w1 by (simp add: operations_of_def fin_requests_from_def fin_request_body_def upt_rec)
  from w2 have w2': "\<exists>i<3. page_count_of ([?p1, ?p2, ?p3] ! i) = int i + 1"
    by (auto simp: numeral_3_eq_3)
  from w1' w3' w2' show ?thesis by blast
qed

text \<open>
  The first answer reports a page count of 0 and the second reports 2: the loop ends at the
  second answer.
\<close>

theorem page_count_zero_then_match_returns:
  "fst (fin_fetch \<lparr>fin_url = ''u'', transaction_type = ''all''\<rparr> 0 5
     [\<lparr>status = 200, message = None, result = Some \<lparr>operations = [7], page_count = 0\<rparr>\<rparr>,
      \<lparr>status = 200, message = None, result = Some \<lparr>operations = [8 :: nat], page_count = 2\<rparr>\<rparr>]
     \<lparr>data = [], sent = []\<rparr>) = Returned"
  by (simp add: fin_fetch_def)

section \<open>Properties of the interval partitioner\<close>

text \<open>
  C4, at inputs the code receives.  From 2023-01-01 00:00 to 2023-01-01 12:00 the range is
  positive, its whole days are 0, so \<^verbatim>\<open>years\<close> is 0 and the division raises.  From
  2021-01-01 00:00 to 2023-01-01 23:00 the whole days are 730, so \<^verbatim>\<open>years\<close> is 2 where
  the range is longer than two spans of 365 days, and the step, 365 days 11 hours 30
  minutes, is longer than 365 days.
\<close>

theorem dates_delta_counts_whole_days:
  "dates_delta 1672531200000000000 1672574400000000000 = Inl ZeroDivisionError
   \<and> dates_delta 1609459200000000000 1672614000000000000 = Inr (2, 31577400000000000)
   \<and> 365 * day_ns < 31577400000000000"
  by code_simp

text \<open>
  The rounding is there: from 2022-01-01 00:00 over 366 days and one nanosecond the steps
  are two of 183 days, one nanosecond short of the range.
\<close>

lemma dates_delta_not_exact:
  "dates_delta 1640995200000000000 1672617600000000001 = Inr (2, 183 * day_ns)
   \<and> 2 * (183 * day_ns) \<noteq> 1672617600000000001 - 1640995200000000000"
  by code_simp

lemma pow2_powi: "pow2 e = 2 powi e"
  by (simp add: pow2_def power_int_def field_simps)

lemma pow2_pos: "0 < pow2 e"
  by (simp add: pow2_powi)

lemma pow2_add: "pow2 (a + b) = pow2 a * pow2 b"
  by (simp add: pow2_powi power_int_add)

lemma pow2_nat: "0 \<le> e \<Longrightarrow> pow2 e = 2 ^ nat e"
  by (simp add: pow2_def)

lemma pow2_minus_53: "pow2 (e - 52) / 2 = pow2 e / 2 ^ 53"
proof -
  have "pow2 e = pow2 (e - 52) * pow2 52"
    using pow2_add [of "e - 52" 52] by simp
  then show ?thesis by (simp add: pow2_def)
qed

lemma round_half_even_error: "\<bar>of_int (round_half_even y) - y\<bar> \<le> 1 / 2"
proof -
  define f where "f = \<lfloor>y\<rfloor>"
  have "of_int f \<le> y" "y < of_int f + 1" unfolding f_def by linarith+
  then show ?thesis
    unfolding round_half_even_def Let_def f_def [symmetric]
    by (auto simp: abs_if split: if_splits)
qed

lemma floor_log2_quot_le:
  assumes "0 < a" "0 < b"
  shows "pow2 (floor_log2_quot a b) \<le> of_int a / of_int b"
proof (cases "of_int b * pow2 (bitlen a - bitlen b) \<le> (of_int a :: rat)")
  case True
  then have "pow2 (bitlen a - bitlen b) \<le> of_int a / of_int b"
    using assms by (simp add: field_simps)
  with True show ?thesis by (simp add: floor_log2_quot_def)
next
  case False
  have a: "(2::rat) powi (bitlen a - 1) \<le> of_int a"
  proof -
    have "2 ^ nat (bitlen a - 1) \<le> a" using bitlen_bounds [OF assms(1)] by simp
    then have "(of_int (2 ^ nat (bitlen a - 1)) :: rat) \<le> of_int a" by (simp only: of_int_le_iff)
    moreover have "1 \<le> bitlen a" using assms(1) bitlen_eq_zero_iff [of a] bitlen_nonneg [of a] by linarith
    ultimately show ?thesis by (simp add: power_int_def)
  qed
  have b: "of_int b < (2::rat) powi (bitlen b)"
  proof -
    have "b < 2 ^ nat (bitlen b)" using bitlen_bounds [OF assms(2)] by simp
    then have "(of_int b :: rat) < of_int (2 ^ nat (bitlen b))" by (simp only: of_int_less_iff)
    then show ?thesis using bitlen_nonneg [of b] by (simp add: power_int_def)
  qed
  have "of_int b * (2::rat) powi (bitlen a - bitlen b - 1) \<le> 2 powi (bitlen b) * 2 powi (bitlen a - bitlen b - 1)"
    using b by (intro mult_right_mono) auto
  also have "\<dots> = 2 powi (bitlen a - 1)"
    by (simp add: power_int_add [symmetric])
  also note a
  finally have "pow2 (bitlen a - bitlen b - 1) \<le> of_int a / of_int b"
    using assms by (simp add: pow2_powi field_simps)
  with False show ?thesis by (simp add: floor_log2_quot_def)
qed

lemma py_truediv_error:
  assumes "0 < a" "0 < b"
  shows "\<exists>f. py_truediv a b = Inr f \<and> \<bar>f - of_int a / of_int b\<bar> \<le> of_int a / of_int b / 2 ^ 53"
proof -
  define x :: rat where "x = of_int a / of_int b"
  define ulp where "ulp = pow2 (floor_log2_quot a b - 52)"
  define f where "f = of_int (round_half_even (x / ulp)) * ulp"
  have ulp: "0 < ulp" by (simp add: ulp_def pow2_pos)
  have eq: "py_truediv a b = Inr f"
    using assms by (simp add: py_truediv_def f_def ulp_def x_def Let_def)
  have "\<bar>of_int (round_half_even (x / ulp)) - x / ulp\<bar> \<le> 1 / 2"
    by (rule round_half_even_error)
  then have "\<bar>of_int (round_half_even (x / ulp)) - x / ulp\<bar> * ulp \<le> 1 / 2 * ulp"
    using ulp by (intro mult_right_mono) auto
  moreover have "\<bar>of_int (round_half_even (x / ulp)) - x / ulp\<bar> * ulp = \<bar>f - x\<bar>"
  proof -
    have "\<bar>of_int (round_half_even (x / ulp)) - x / ulp\<bar> * ulp
          = \<bar>(of_int (round_half_even (x / ulp)) - x / ulp) * ulp\<bar>"
      using ulp by (simp add: abs_mult)
    also have "(of_int (round_half_even (x / ulp)) - x / ulp) * ulp = f - x"
      using ulp by (simp add: f_def field_simps)
    finally show ?thesis .
  qed
  ultimately have "\<bar>f - x\<bar> \<le> ulp / 2" by simp
  also have "ulp / 2 = pow2 (floor_log2_quot a b) / 2 ^ 53"
    unfolding ulp_def by (rule pow2_minus_53)
  also have "\<dots> \<le> x / 2 ^ 53"
    using floor_log2_quot_le [OF assms] by (simp add: x_def divide_right_mono)
  finally show ?thesis using eq by (auto simp: x_def)
qed

lemma py_truediv_nonneg:
  assumes "0 \<le> a" "0 < b"
  shows "\<exists>f. py_truediv a b = Inr f \<and> 0 \<le> f"
proof (cases "a = 0")
  case True
  then show ?thesis using assms by (simp add: py_truediv_def)
next
  case False
  then have "0 < a" using assms by simp
  from py_truediv_error [OF this assms(2)] obtain f where
    f: "py_truediv a b = Inr f" "\<bar>f - of_int a / of_int b\<bar> \<le> of_int a / of_int b / 2 ^ 53" by blast
  have "(of_int a / of_int b :: rat) / 2 ^ 53 \<le> of_int a / of_int b"
    using \<open>0 < a\<close> assms(2) by (simp add: field_simps)
  with f(2) have "0 \<le> f" by linarith
  with f(1) show ?thesis by blast
qed

text \<open>
  C5.  On a range with \<open>since < to\<close> on which \<^verbatim>\<open>dates_delta\<close>
  succeeds, the count is positive and \<open>count * step\<close> is the range up to rounding: the step
  is the quotient rounded to a float and cut to whole nanoseconds, so the product differs
  from the range by less than \<open>count + range / 2^53\<close> nanoseconds.
\<close>

theorem dates_delta_tolerance:
  assumes "time_since < time_to" and "dates_delta time_since time_to = Inr (years, step)"
  shows "0 < years \<and>
         \<bar>of_int (years * step) - of_int (time_to - time_since)\<bar>
           < (of_int years + of_int (time_to - time_since) / 2 ^ 53 :: rat)"
proof -
  define D where "D = time_to - time_since"
  have D: "0 < D" using assms(1) by (simp add: D_def)
  have "0 \<le> days D" using D by (simp add: days_def day_ns_def pos_imp_zdiv_nonneg_iff)
  from py_truediv_nonneg [OF this, of 365] obtain q where
    q: "py_truediv (days D) 365 = Inr q" "0 \<le> q" by auto
  from assms(2) q(1) have td: "timedelta_truediv D \<lceil>q\<rceil> = Inr step" and y: "years = \<lceil>q\<rceil>"
    by (auto simp: dates_delta_def D_def Let_def split: sum.splits)
  have "0 \<le> years" using q(2) y by simp
  moreover have "years \<noteq> 0"
    using td y by (auto simp: timedelta_truediv_def py_truediv_def)
  ultimately have years: "0 < years" by simp
  from py_truediv_error [OF D years] obtain f where
    f: "py_truediv D years = Inr f" "\<bar>f - of_int D / of_int years\<bar> \<le> of_int D / of_int years / 2 ^ 53"
    by blast
  have step: "step = trunc f" using td y f(1) by (simp add: timedelta_truediv_def)
  have "(of_int D / of_int years :: rat) / 2 ^ 53 \<le> of_int D / of_int years"
    using D years by (simp add: field_simps)
  with f(2) have "0 \<le> f" by linarith
  then have "step = \<lfloor>f\<rfloor>" by (simp add: step trunc_def)
  then have "of_int step \<le> f" "f < of_int step + 1" by linarith+
  with f(2) have "\<bar>of_int step - of_int D / of_int years\<bar> < (1 + of_int D / of_int years / 2 ^ 53 :: rat)"
    by linarith
  then have lt: "\<bar>of_int step - of_int D / of_int years\<bar> * of_int years
              < (1 + of_int D / of_int years / 2 ^ 53 :: rat) * of_int years"
    using years by (intro mult_strict_right_mono) auto
  have e1: "\<bar>of_int step - of_int D / of_int years\<bar> * (of_int years :: rat)
                 = \<bar>of_int (years * step) - of_int D\<bar>"
  proof -
    have "\<bar>of_int step - of_int D / of_int years\<bar> * (of_int years :: rat)
          = \<bar>(of_int step - of_int D / of_int years) * of_int years\<bar>"
      using years by (simp add: abs_mult)
    also have "(of_int step - of_int D / of_int years) * (of_int years :: rat) = of_int (years * step) - of_int D"
      using years by (simp add: field_simps)
    finally show ?thesis .
  qed
  have e2: "(1 + of_int D / of_int years / 2 ^ 53 :: rat) * of_int years = of_int years + of_int D / 2 ^ 53"
    using years by (simp add: field_simps)
  from lt have "\<bar>of_int (years * step) - of_int D\<bar> < (of_int years + of_int D / 2 ^ 53 :: rat)"
    by (simp only: e1 e2)
  with years show ?thesis unfolding D_def by blast
qed

theorem dates_delta_tolerance_witness:
  "(0 :: int) < 190080000000000000
   \<and> dates_delta 0 190080000000000000 = Inr (7, 27154285714285716)
   \<and> \<bar>of_int (7 * 27154285714285716) - of_int (190080000000000000 - 0)\<bar>
       < (of_int 7 + of_int (190080000000000000 - 0) / 2 ^ 53 :: rat)"
proof -
  have h1: "(0 :: int) < 190080000000000000" by simp
  have h2: "dates_delta 0 190080000000000000 = Inr (7, 27154285714285716)" by code_simp
  from dates_delta_tolerance [OF h1 h2] h1 h2 show ?thesis by blast
qed

section \<open>Properties of Explode\<close>

lemma bind_exn_Inr [simp]: "bind_exn (Inr x) f = f x"
  by (simp add: bind_exn_def)

lemma bind_exn_Inl [simp]: "bind_exn (Inl e) f = Inl e"
  by (simp add: bind_exn_def)

lemma map_exn_Inr:
  "(\<And>x. x \<in> set xs \<Longrightarrow> f x = Inr (g x)) \<Longrightarrow> map_exn f xs = Inr (map g xs)"
  by (induction xs) simp_all

lemma getitem_update_other:
  "k \<noteq> k' \<Longrightarrow> getitem (AList.update k' v d) k = getitem d k"
  by (simp add: getitem_def update_conv')

text \<open>
  Explode on one column: a record whose column holds a list yields one clone for every
  element of the list, the column holding that element, the other fields unchanged.
\<close>

lemma mult_data_explodes:
  assumes "map_of group_name column = Some (JList xs)"
  shows "mult_data (group_name # rest) column =
         bind_exn (mult_data rest column) (\<lambda>more.
           Inr (map (\<lambda>item. AList.update column (xs ! item) group_name) [0..<length xs] @ more))"
proof -
  have g: "getitem group_name column = Inr (JList xs)"
    using assms by (simp add: getitem_def)
  have "mult_clone column group_name item = Inr (AList.update column (xs ! item) group_name)"
    if "item \<in> set [0..<length xs]" for item
    using that by (simp add: mult_clone_def g)
  then have "map_exn (mult_clone column group_name) [0..<length xs] =
        Inr (map (\<lambda>item. AList.update column (xs ! item) group_name) [0..<length xs])"
    by (rule map_exn_Inr)
  then show ?thesis by (simp add: g)
qed

text \<open>
  C9 (as the code has it).  When the two lists differ in length, whichever is the longer,
  the record yields one clone for every element of the list under the first column: the
  first column holds the element at the index of the clone, the second column holds
  \<^verbatim>\<open>None\<close>, every other field is that of the record.
\<close>

theorem mult_data2_unequal_lengths:
  assumes "map_of nt first_column = Some (JList xs)"
    and "map_of nt second_column = Some (JList ys)"
    and "length xs \<noteq> length ys"
  shows "mult_data2 (nt # rest) first_column second_column =
         bind_exn (mult_data2 rest first_column second_column) (\<lambda>more.
           Inr (map (\<lambda>i. AList.update first_column (xs ! i) (AList.update second_column JNull nt))
                  [0..<length xs] @ more))"
proof -
  from assms have ne: "first_column \<noteq> second_column" by auto
  have g1: "getitem nt first_column = Inr (JList xs)"
    and g2: "getitem nt second_column = Inr (JList ys)"
    using assms by (simp_all add: getitem_def)
  have "clone_unaligned first_column second_column nt i =
        Inr (AList.update first_column (xs ! i) (AList.update second_column JNull nt))"
    if "i \<in> set [0..<length xs]" for i
    using that by (simp add: clone_unaligned_def Let_def getitem_update_other [OF ne] g1)
  then have rows: "map_exn (clone_unaligned first_column second_column nt) [0..<length xs] =
        Inr (map (\<lambda>i. AList.update first_column (xs ! i) (AList.update second_column JNull nt))
               [0..<length xs])"
    by (rule map_exn_Inr)
  show ?thesis
    using assms(3) by (simp add: g1 g2 rows)
qed

theorem mult_data2_unequal_lengths_witness:
  "mult_data2 [[(''a'', JList [JInt 1, JInt 2]), (''b'', JList [JInt 10]), (''c'', JStr ''x'')]] ''a'' ''b''
   = Inr [[(''a'', JInt 1), (''b'', JNull), (''c'', JStr ''x'')],
          [(''a'', JInt 2), (''b'', JNull), (''c'', JStr ''x'')]]"
  using mult_data2_unequal_lengths [where
      nt = "[(''a'', JList [JInt 1, JInt 2]), (''b'', JList [JInt 10]), (''c'', JStr ''x'')]"
      and first_column = "''a''" and second_column = "''b''"
      and xs = "[JInt 1, JInt 2]" and ys = "[JInt 10]" and rest = "[]"]
  by (simp add: upt_rec)

text \<open>
  The second list is the longer one: a single clone, for the one element of the first list,
  and the field of the longer list is the one set to \<^verbatim>\<open>None\<close>.
\<close>

theorem mult_data2_second_longer:
  "mult_data2 [[(''a'', JList [JInt 1]), (''b'', JList [JInt 10, JInt 20])]] ''a'' ''b''
   = Inr [[(''a'', JInt 1), (''b'', JNull)]]"
  by (simp add: clone_unaligned_def getitem_def upt_rec)

section \<open>Properties of Flatten\<close>

lemma dict_weight_simps [simp]:
  "dict_weight [] = 0"
  "dict_weight ((k, v) # d) = weight v + dict_weight d"
  by (simp_all add: dict_weight_def)

lemma weight_JDict: "weight (JDict kvs) = Suc (dict_weight kvs)"
  by (simp add: dict_weight_def)

lemma dict_weight_update: "dict_weight (AList.update k v d) \<le> dict_weight d + weight v"
  by (induction d) auto

lemma dict_weight_delete:
  "map_of d k = Some v \<Longrightarrow> dict_weight (AList.delete k d) + weight v \<le> dict_weight d"
proof (induction d)
  case Nil
  then show ?case by simp
next
  case (Cons p d)
  obtain k' v' where p: "p = (k', v')" by (cases p)
  show ?case
  proof (cases "k' = k")
    case True
    have "dict_weight (AList.delete k d) \<le> dict_weight d"
      by (induction d) auto
    with True Cons.prems p show ?thesis by simp
  next
    case False
    with Cons p show ?thesis by simp
  qed
qed

lemma dict_weight_promote:
  "dict_weight (promote parent_key nested d) \<le> dict_weight d + dict_weight nested"
proof (induction nested arbitrary: d)
  case Nil
  show ?case by (simp add: promote_def)
next
  case (Cons p nested)
  obtain nk nv where p: "p = (nk, nv)" by (cases p)
  have "dict_weight (promote parent_key (p # nested) d) =
        dict_weight (promote parent_key nested (AList.update (parent_key @ ''__'' @ nk) nv d))"
    by (simp add: promote_def p)
  also have "\<dots> \<le> dict_weight (AList.update (parent_key @ ''__'' @ nk) nv d) + dict_weight nested"
    by (rule Cons.IH)
  also have "\<dots> \<le> dict_weight d + weight nv + dict_weight nested"
    using dict_weight_update [of "parent_key @ ''__'' @ nk" nv d] by simp
  finally show ?case by (simp add: p)
qed

lemma map_of_promote_other:
  "(\<And>nk. k \<noteq> parent_key @ ''__'' @ nk) \<Longrightarrow> map_of (promote parent_key nested d) k = map_of d k"
proof (induction nested arbitrary: d)
  case Nil
  show ?case by (simp add: promote_def)
next
  case (Cons p nested)
  obtain nk nv where p: "p = (nk, nv)" by (cases p)
  have "promote parent_key (p # nested) d =
        promote parent_key nested (AList.update (parent_key @ ''__'' @ nk) nv d)"
    by (simp add: promote_def p)
  then show ?case using Cons by (simp add: update_conv')
qed

lemma map_of_promote_parent: "map_of (promote parent_key nested d) parent_key = map_of d parent_key"
  by (rule map_of_promote_other) simp

lemma keys_promote: "fst ` set d \<subseteq> fst ` set (promote parent_key nested d)"
proof (induction nested arbitrary: d)
  case Nil
  show ?case by (simp add: promote_def)
next
  case (Cons p nested)
  obtain nk nv where p: "p = (nk, nv)" by (cases p)
  have "promote parent_key (p # nested) d =
        promote parent_key nested (AList.update (parent_key @ ''__'' @ nk) nv d)"
    by (simp add: promote_def p)
  moreover have "fst ` set d \<subseteq> fst ` set (AList.update (parent_key @ ''__'' @ nk) nv d)"
    by (auto simp: dom_update)
  ultimately show ?case using Cons.IH [of "AList.update (parent_key @ ''__'' @ nk) nv d"] by auto
qed

lemma distinct_promote:
  "distinct (map fst d) \<Longrightarrow> distinct (map fst (promote parent_key nested d))"
proof (induction nested arbitrary: d)
  case Nil
  then show ?case by (simp add: promote_def)
next
  case (Cons p nested)
  obtain nk nv where p: "p = (nk, nv)" by (cases p)
  have "promote parent_key (p # nested) d =
        promote parent_key nested (AList.update (parent_key @ ''__'' @ nk) nv d)"
    by (simp add: promote_def p)
  then show ?case using Cons by (simp add: distinct_update)
qed

lemma visit_props:
  assumes "k \<in> fst ` set d"
  shows "\<exists>d'. visit k d = Inr d'
           \<and> dict_weight d' \<le> dict_weight d
           \<and> ((\<exists>n. map_of d k = Some (JDict n)) \<longrightarrow> dict_weight d' < dict_weight d)
           \<and> ((\<forall>n. map_of d k \<noteq> Some (JDict n)) \<longrightarrow> d' = d)
           \<and> fst ` set d - {k} \<subseteq> fst ` set d'
           \<and> (distinct (map fst d) \<longrightarrow> distinct (map fst d'))"
proof -
  from assms obtain v where v: "map_of d k = Some v"
    by (metis domD dom_map_of_conv_image_fst)
  show ?thesis
  proof (cases v)
    case (JDict nested)
    let ?p = "promote k nested d"
    have vis: "visit k d = Inr (AList.delete k ?p)"
      using v JDict by (simp add: visit_def)
    have "map_of ?p k = Some (JDict nested)"
      using v JDict by (simp add: map_of_promote_parent)
    from dict_weight_delete [OF this]
    have "dict_weight (AList.delete k ?p) + Suc (dict_weight nested) \<le> dict_weight ?p"
      unfolding weight_JDict .
    with dict_weight_promote [of k nested d]
    have lt: "dict_weight (AList.delete k ?p) < dict_weight d" by simp
    have keys: "fst ` set d - {k} \<subseteq> fst ` set (AList.delete k ?p)"
    proof
      fix x assume x: "x \<in> fst ` set d - {k}"
      then have "x \<in> fst ` set ?p" using keys_promote [of d k nested] by auto
      then have "x \<in> set (map fst ?p)" by simp
      with x have "x \<in> set (removeAll k (map fst ?p))" by simp
      then show "x \<in> fst ` set (AList.delete k ?p)" by (simp add: delete_keys [symmetric])
    qed
    have "distinct (map fst d) \<longrightarrow> distinct (map fst (AList.delete k ?p))"
      by (simp add: distinct_promote distinct_delete)
    with vis lt keys v JDict show ?thesis by auto
  qed (use v in \<open>auto simp: visit_def\<close>)
qed

lemma pass_props:
  assumes "distinct ks" "set ks \<subseteq> fst ` set d"
  shows "\<exists>d'. pass ks d = Inr d'
           \<and> dict_weight d' \<le> dict_weight d
           \<and> ((\<exists>k\<in>set ks. \<exists>n. map_of d k = Some (JDict n)) \<longrightarrow> dict_weight d' < dict_weight d)
           \<and> (distinct (map fst d) \<longrightarrow> distinct (map fst d'))"
  using assms
proof (induction ks arbitrary: d)
  case Nil
  then show ?case by simp
next
  case (Cons k ks)
  from Cons.prems have k: "k \<in> fst ` set d" by simp
  from visit_props [OF k] obtain d1 where d1: "visit k d = Inr d1"
    "dict_weight d1 \<le> dict_weight d"
    "(\<exists>n. map_of d k = Some (JDict n)) \<longrightarrow> dict_weight d1 < dict_weight d"
    "(\<forall>n. map_of d k \<noteq> Some (JDict n)) \<longrightarrow> d1 = d"
    "fst ` set d - {k} \<subseteq> fst ` set d1"
    "distinct (map fst d) \<longrightarrow> distinct (map fst d1)"
    by blast
  from Cons.prems have ks: "distinct ks" "set ks \<subseteq> fst ` set d1"
    using d1(5) by auto
  from Cons.IH [OF ks] obtain d' where d': "pass ks d1 = Inr d'"
    "dict_weight d' \<le> dict_weight d1"
    "(\<exists>k\<in>set ks. \<exists>n. map_of d1 k = Some (JDict n)) \<longrightarrow> dict_weight d' < dict_weight d1"
    "distinct (map fst d1) \<longrightarrow> distinct (map fst d')"
    by blast
  have "pass (k # ks) d = Inr d'" using d1(1) d'(1) by simp
  moreover have "dict_weight d' \<le> dict_weight d" using d1(2) d'(2) by simp
  moreover have "dict_weight d' < dict_weight d"
    if "\<exists>k'\<in>set (k # ks). \<exists>n. map_of d k' = Some (JDict n)"
  proof (cases "\<exists>n. map_of d k = Some (JDict n)")
    case True
    with d1(3) d'(2) show ?thesis by simp
  next
    case False
    with d1(4) have "d1 = d" by simp
    with that False have "\<exists>k\<in>set ks. \<exists>n. map_of d1 k = Some (JDict n)" by auto
    with d'(3) d1(2) show ?thesis by simp
  qed
  moreover have "distinct (map fst d) \<longrightarrow> distinct (map fst d')" using d1(6) d'(4) by simp
  ultimately show ?case by blast
qed

lemma flat_iff: "flat d \<longleftrightarrow> (\<forall>(k, v)\<in>set d. \<not> is_dict v)"
  by (auto simp: flat_def list_ex_iff)

lemma not_flat_dict_key:
  assumes "\<not> flat d" "distinct (map fst d)"
  shows "\<exists>k\<in>set (map fst d). \<exists>n. map_of d k = Some (JDict n)"
proof -
  from assms(1) obtain k v where kv: "(k, v) \<in> set d" "is_dict v" by (auto simp: flat_iff)
  then obtain n where "v = JDict n" by (cases v) auto
  with kv assms(2) have "map_of d k = Some (JDict n)" by simp
  with kv(1) show ?thesis by force
qed

lemma flatten_while_flat: "flat d \<Longrightarrow> flatten_while d = Some (Inr d)"
  by (subst flatten_while.simps) (simp add: flat_def)

lemma flatten_while_total:
  "distinct (map fst d) \<Longrightarrow>
   \<exists>d'. flatten_while d = Some (Inr d') \<and> flat d' \<and> distinct (map fst d')"
proof (induction "dict_weight d" arbitrary: d rule: less_induct)
  case less
  show ?case
  proof (cases "flat d")
    case True
    with less.prems show ?thesis by (auto simp: flatten_while_flat)
  next
    case False
    from pass_props [of "map fst d" d] less.prems obtain d1 where d1: "pass (map fst d) d = Inr d1"
      "(\<exists>k\<in>set (map fst d). \<exists>n. map_of d k = Some (JDict n)) \<longrightarrow> dict_weight d1 < dict_weight d"
      "distinct (map fst d1)"
      by auto
    from not_flat_dict_key [OF False less.prems] d1(2) have "dict_weight d1 < dict_weight d" by blast
    from less.hyps [OF this d1(3)] obtain d' where
      "flatten_while d1 = Some (Inr d')" "flat d'" "distinct (map fst d')" by blast
    moreover have "flatten_while d = flatten_while d1"
      using False d1(1) by (subst flatten_while.simps) (simp add: flat_def)
    ultimately show ?thesis by auto
  qed
qed

lemma flatten_for_total:
  assumes "\<forall>r\<in>set rs. distinct (map fst (h r))"
  shows "\<exists>h'. flatten_for rs h = Some (Inr h') \<and> (\<forall>r\<in>set rs. flat (h' r))
           \<and> (\<forall>r. r \<notin> set rs \<longrightarrow> h' r = h r)"
  using assms
proof (induction rs arbitrary: h)
  case Nil
  then show ?case by simp
next
  case (Cons r rs)
  from Cons.prems have "distinct (map fst (h r))" by simp
  from flatten_while_total [OF this] obtain d where
    d: "flatten_while (h r) = Some (Inr d)" "flat d" "distinct (map fst d)" by blast
  let ?h = "h(r := d)"
  have "\<forall>r'\<in>set rs. distinct (map fst (?h r'))" using Cons.prems d(3) by simp
  from Cons.IH [OF this] obtain h' where h': "flatten_for rs ?h = Some (Inr h')"
    "\<forall>r'\<in>set rs. flat (h' r')" "\<forall>r'. r' \<notin> set rs \<longrightarrow> h' r' = ?h r'" by blast
  have "flatten_for (r # rs) h = Some (Inr h')" using d(1) h'(1) by simp
  moreover have "flat (h' r)"
  proof (cases "r \<in> set rs")
    case True
    with h'(2) show ?thesis by simp
  next
    case False
    with h'(3) d(2) show ?thesis by simp
  qed
  moreover have "\<forall>r'. r' \<notin> set (r # rs) \<longrightarrow> h' r' = h r'" using h'(3) by simp
  ultimately show ?case using h'(2) by auto
qed

lemma flatten_for_flat:
  "\<forall>r\<in>set rs. flat (h r) \<Longrightarrow> flatten_for rs h = Some (Inr h)"
  by (induction rs) (simp_all add: flatten_while_flat)

lemma nodes_Cons: "\<exists>rest. nodes key v = key # rest"
  by (cases v) simp_all

lemma leaves_JDict: "leaves key (JDict nested) = leaves_of (renamed key nested)"
  by (simp add: leaves_of_def renamed_def comp_def)

lemma nodes_JDict: "nodes key (JDict nested) = key # nodes_of (renamed key nested)"
  by (simp add: nodes_of_def renamed_def comp_def)

lemma leaves_of_simps [simp]:
  "leaves_of [] = []"
  "leaves_of ((k, v) # d) = leaves k v @ leaves_of d"
  "leaves_of (d @ d') = leaves_of d @ leaves_of d'"
  by (simp_all add: leaves_of_def)

lemma nodes_of_simps [simp]:
  "nodes_of [] = []"
  "nodes_of ((k, v) # d) = nodes k v @ nodes_of d"
  "nodes_of (d @ d') = nodes_of d @ nodes_of d'"
  by (simp_all add: nodes_of_def)

lemma keys_in_nodes: "set (map fst d) \<subseteq> set (nodes_of d)"
proof (induction d)
  case Nil
  show ?case by simp
next
  case (Cons p d)
  obtain k v where p: "p = (k, v)" by (cases p)
  from nodes_Cons [of k v] obtain rest where "nodes k v = k # rest" by blast
  with Cons p show ?case by auto
qed

lemma distinct_nodes_keys: "distinct (nodes_of d) \<Longrightarrow> distinct (map fst d)"
proof (induction d)
  case Nil
  show ?case by simp
next
  case (Cons p d)
  obtain k v where p: "p = (k, v)" by (cases p)
  from nodes_Cons [of k v] obtain rest where r: "nodes k v = k # rest" by blast
  from Cons.prems p r have "k \<notin> set (nodes_of d)" "distinct (nodes_of d)" by auto
  with keys_in_nodes [of d] Cons.IH p show ?case by auto
qed

lemma update_fresh: "k \<notin> fst ` set d \<Longrightarrow> AList.update k v d = d @ [(k, v)]"
  by (induction d) auto

lemma promote_fresh:
  "distinct (map fst d @ map fst (renamed parent_key nested)) \<Longrightarrow>
   promote parent_key nested d = d @ renamed parent_key nested"
proof (induction nested arbitrary: d)
  case Nil
  show ?case by (simp add: promote_def renamed_def)
next
  case (Cons p nested)
  obtain nk nv where p: "p = (nk, nv)" by (cases p)
  let ?k = "parent_key @ ''__'' @ nk"
  have r: "renamed parent_key (p # nested) = (?k, nv) # renamed parent_key nested"
    by (simp add: renamed_def p)
  from Cons.prems have fresh: "?k \<notin> fst ` set d" unfolding r by auto
  have "promote parent_key (p # nested) d = promote parent_key nested (AList.update ?k nv d)"
    by (simp add: promote_def p)
  also have "\<dots> = promote parent_key nested (d @ [(?k, nv)])"
    by (subst update_fresh [OF fresh]) (rule refl)
  also have "\<dots> = (d @ [(?k, nv)]) @ renamed parent_key nested"
    using Cons.prems unfolding r by (intro Cons.IH) auto
  finally show ?case unfolding r by simp
qed

lemma parent_not_renamed: "k \<notin> fst ` set (renamed k nested)"
  by (auto simp: renamed_def)

lemma delete_absent: "k \<notin> fst ` set d \<Longrightarrow> AList.delete k d = d"
  by (rule delete_id)

lemma delete_append: "AList.delete k (d @ d') = AList.delete k d @ AList.delete k d'"
  by (simp add: AList.delete_eq)

lemma split_entry:
  assumes "map_of d k = Some v"
  shows "\<exists>d1 d2. d = d1 @ (k, v) # d2 \<and> k \<notin> fst ` set d1"
  using assms
proof (induction d)
  case Nil
  then show ?case by simp
next
  case (Cons p d)
  obtain k' v' where p: "p = (k', v')" by (cases p)
  show ?case
  proof (cases "k' = k")
    case True
    with Cons.prems p have "p # d = [] @ (k, v) # d" by simp
    then show ?thesis by (metis empty_iff image_empty list.set(1))
  next
    case False
    with Cons p obtain d1 d2 where "d = d1 @ (k, v) # d2" "k \<notin> fst ` set d1" by auto
    with False p have "p # d = (p # d1) @ (k, v) # d2 \<and> k \<notin> fst ` set (p # d1)" by auto
    then show ?thesis by blast
  qed
qed

lemma visit_leaves:
  assumes "k \<in> fst ` set d" "distinct (nodes_of d)"
  shows "\<exists>d'. visit k d = Inr d' \<and> distinct (nodes_of d') \<and> mset (leaves_of d') = mset (leaves_of d)"
proof -
  from assms(1) obtain v where v: "map_of d k = Some v"
    by (metis domD dom_map_of_conv_image_fst)
  show ?thesis
  proof (cases v)
    case (JDict nested)
    from split_entry [OF v] obtain d1 d2 where
      d: "d = d1 @ (k, JDict nested) # d2" "k \<notin> fst ` set d1" unfolding JDict by blast
    let ?r = "renamed k nested"
    have dn: "distinct (nodes_of d1 @ (k # nodes_of ?r) @ nodes_of d2)"
      using assms(2) unfolding d(1) by (simp add: nodes_JDict del: nodes.simps)
    have keys: "distinct (map fst d)" using assms(2) by (rule distinct_nodes_keys)
    then have k2: "k \<notin> fst ` set d2" unfolding d(1) by auto
    have "distinct (map fst d @ map fst ?r)"
    proof -
      have "distinct (map fst d1)" "distinct (map fst d2)" "distinct (map fst ?r)"
        using dn by (auto intro: distinct_nodes_keys)
      moreover have "\<forall>x\<in>set d1. fst x \<in> set (nodes_of d1)" "\<forall>x\<in>set d2. fst x \<in> set (nodes_of d2)"
        "\<forall>x\<in>set ?r. fst x \<in> set (nodes_of ?r)"
        using keys_in_nodes [of d1] keys_in_nodes [of d2] keys_in_nodes [of ?r] by auto
      ultimately show ?thesis using dn unfolding d(1) by fastforce
    qed
    from promote_fresh [OF this] have pr: "promote k nested d = d @ ?r" .
    have "AList.delete k (d @ ?r) = AList.delete k d @ ?r"
      by (simp add: delete_append delete_id [OF parent_not_renamed])
    also have "AList.delete k d = d1 @ d2"
      unfolding d(1) using d(2) k2 by (simp add: delete_append delete_id)
    finally have vis: "visit k d = Inr (d1 @ d2 @ ?r)"
      using v JDict pr by (simp add: visit_def)
    have "mset (k # nodes_of (d1 @ d2 @ ?r)) = mset (nodes_of d1 @ (k # nodes_of ?r) @ nodes_of d2)"
      by simp
    from mset_eq_imp_distinct_iff [OF this] dn have "distinct (nodes_of (d1 @ d2 @ ?r))" by simp
    moreover have "mset (leaves_of (d1 @ d2 @ ?r)) = mset (leaves_of d)"
      unfolding d(1) by (simp add: leaves_JDict del: leaves.simps)
    ultimately show ?thesis using vis by blast
  qed (use v assms(2) in \<open>auto simp: visit_def\<close>)
qed

lemma pass_leaves:
  assumes "distinct ks" "set ks \<subseteq> fst ` set d" "distinct (nodes_of d)"
  shows "\<exists>d'. pass ks d = Inr d' \<and> distinct (nodes_of d') \<and> mset (leaves_of d') = mset (leaves_of d)"
  using assms
proof (induction ks arbitrary: d)
  case Nil
  then show ?case by simp
next
  case (Cons k ks)
  from Cons.prems have k: "k \<in> fst ` set d" by simp
  from visit_leaves [OF k Cons.prems(3)] obtain d1 where d1: "visit k d = Inr d1"
    "distinct (nodes_of d1)" "mset (leaves_of d1) = mset (leaves_of d)" by blast
  from visit_props [OF k] d1(1) have "fst ` set d - {k} \<subseteq> fst ` set d1" by auto
  with Cons.prems have ks: "distinct ks" "set ks \<subseteq> fst ` set d1" by auto
  from Cons.IH [OF ks d1(2)] obtain d' where "pass ks d1 = Inr d'"
    "distinct (nodes_of d')" "mset (leaves_of d') = mset (leaves_of d1)" by blast
  with d1 show ?case by simp
qed

lemma flat_leaves: "flat d \<Longrightarrow> leaves_of d = d"
proof (induction d)
  case Nil
  show ?case by simp
next
  case (Cons p d)
  obtain k v where p: "p = (k, v)" by (cases p)
  from Cons.prems p have "\<not> is_dict v" "flat d" by (auto simp: flat_def)
  then have "leaves k v = [(k, v)]" by (cases v) simp_all
  with Cons.IH \<open>flat d\<close> p show ?case by simp
qed

lemma flatten_while_leaves:
  "distinct (nodes_of d) \<Longrightarrow>
   \<exists>d'. flatten_while d = Some (Inr d') \<and> mset d' = mset (leaves_of d)"
proof (induction "dict_weight d" arbitrary: d rule: less_induct)
  case less
  have keys: "distinct (map fst d)" using less.prems by (rule distinct_nodes_keys)
  show ?case
  proof (cases "flat d")
    case True
    then show ?thesis by (simp add: flatten_while_flat flat_leaves)
  next
    case False
    from pass_leaves [of "map fst d" d] keys less.prems obtain d1 where d1: "pass (map fst d) d = Inr d1"
      "distinct (nodes_of d1)" "mset (leaves_of d1) = mset (leaves_of d)"
      by auto
    from pass_props [of "map fst d" d] keys d1(1)
    have "(\<exists>k\<in>set (map fst d). \<exists>n. map_of d k = Some (JDict n)) \<longrightarrow> dict_weight d1 < dict_weight d"
      by auto
    with not_flat_dict_key [OF False keys] have "dict_weight d1 < dict_weight d" by blast
    from less.hyps [OF this d1(2)] obtain d' where
      "flatten_while d1 = Some (Inr d')" "mset d' = mset (leaves_of d1)" by blast
    moreover have "flatten_while d = flatten_while d1"
      using False d1(1) by (subst flatten_while.simps) (simp add: flat_def)
    ultimately show ?thesis using d1(3) by auto
  qed
qed

lemma flatten_for_result:
  assumes "\<forall>r\<in>set rs. distinct (map fst (h r))"
  shows "\<exists>h'. flatten_for rs h = Some (Inr h')
           \<and> (\<forall>r\<in>set rs. flatten_while (h r) = Some (Inr (h' r)) \<and> flat (h' r))
           \<and> (\<forall>r. r \<notin> set rs \<longrightarrow> h' r = h r)"
  using assms
proof (induction rs arbitrary: h)
  case Nil
  then show ?case by simp
next
  case (Cons r rs)
  from Cons.prems have "distinct (map fst (h r))" by simp
  from flatten_while_total [OF this] obtain d where
    d: "flatten_while (h r) = Some (Inr d)" "flat d" "distinct (map fst d)" by blast
  let ?h = "h(r := d)"
  have "\<forall>r'\<in>set rs. distinct (map fst (?h r'))" using Cons.prems d(3) by simp
  from Cons.IH [OF this] obtain h' where h': "flatten_for rs ?h = Some (Inr h')"
    "\<forall>r'\<in>set rs. flatten_while (?h r') = Some (Inr (h' r')) \<and> flat (h' r')"
    "\<forall>r'. r' \<notin> set rs \<longrightarrow> h' r' = ?h r'" by blast
  have run: "flatten_for (r # rs) h = Some (Inr h')" using d(1) h'(1) by simp
  have hr: "h' r = d"
  proof (cases "r \<in> set rs")
    case True
    with h'(2) have "flatten_while (?h r) = Some (Inr (h' r))" by blast
    moreover have "flatten_while (?h r) = Some (Inr d)" using d(2) by (simp add: flatten_while_flat)
    ultimately show ?thesis by simp
  next
    case False
    with h'(3) show ?thesis by simp
  qed
  have "flatten_while (h r') = Some (Inr (h' r')) \<and> flat (h' r')" if "r' \<in> set (r # rs)" for r'
  proof (cases "r' = r")
    case True
    with hr d show ?thesis by simp
  next
    case False
    with that h'(2) show ?thesis by auto
  qed
  moreover have "\<forall>r'. r' \<notin> set (r # rs) \<longrightarrow> h' r' = h r'" using h'(3) by simp
  ultimately show ?case using run by blast
qed

text \<open>
  C7.  On a list of records (each with distinct keys, as a Python dict has),
  \<^verbatim>\<open>flatten_dict\<close> returns: no loop runs forever and no lookup fails.  The list returned
  holds the records of the argument, in their order.  Each of them is what the loop made of
  it: no value of it is a dict, and, when no promoted key meets a key that is present, its
  pairs are exactly the pairs of the record at any depth that are not nested mappings, each
  under the keys on its path joined by two underscores.  The records outside the list are
  as they were.  A second application returns the same list and leaves every record as the
  first application left it.
\<close>

theorem flatten_dict_idempotent:
  assumes "\<forall>r\<in>set data_to_unpack. distinct (map fst (h r))"
  shows "\<exists>h'. flatten_dict h data_to_unpack = Some (Inr (data_to_unpack, h'))
           \<and> (\<forall>r\<in>set data_to_unpack.
                 flatten_while (h r) = Some (Inr (h' r))
                 \<and> \<not> list_ex is_dict (map snd (h' r))
                 \<and> (distinct (nodes_of (h r)) \<longrightarrow> mset (h' r) = mset (leaves_of (h r))))
           \<and> (\<forall>r. r \<notin> set data_to_unpack \<longrightarrow> h' r = h r)
           \<and> flatten_dict h' data_to_unpack = Some (Inr (data_to_unpack, h'))"
proof -
  from flatten_for_result [OF assms] obtain h' where
    h': "flatten_for data_to_unpack h = Some (Inr h')"
        "\<forall>r\<in>set data_to_unpack. flatten_while (h r) = Some (Inr (h' r)) \<and> flat (h' r)"
        "\<forall>r. r \<notin> set data_to_unpack \<longrightarrow> h' r = h r"
    by blast
  have a: "flatten_dict h data_to_unpack = Some (Inr (data_to_unpack, h'))"
    using h'(1) by (simp add: flatten_dict_def)
  have "\<forall>r\<in>set data_to_unpack. flat (h' r)" using h'(2) by blast
  from flatten_for_flat [OF this]
  have b: "flatten_dict h' data_to_unpack = Some (Inr (data_to_unpack, h'))"
    by (simp add: flatten_dict_def)
  have c: "flatten_while (h r) = Some (Inr (h' r))
           \<and> \<not> list_ex is_dict (map snd (h' r))
           \<and> (distinct (nodes_of (h r)) \<longrightarrow> mset (h' r) = mset (leaves_of (h r)))"
    if "r \<in> set data_to_unpack" for r
  proof -
    from h'(2) that have f: "flatten_while (h r) = Some (Inr (h' r))" "flat (h' r)" by auto
    have "mset (h' r) = mset (leaves_of (h r))" if "distinct (nodes_of (h r))"
      using flatten_while_leaves [OF that] f(1) by auto
    with f show ?thesis by (simp add: flat_def)
  qed
  from a b c h'(3) show ?thesis by blast
qed

theorem flatten_dict_idempotent_witness:
  "\<exists>h'. flatten_dict ((\<lambda>r. [])(0 := [(''a'', JDict [(''b'', JInt 1), (''c'', JDict [(''d'', JInt 2)])]),
                                        (''e'', JInt 3)])) [0] = Some (Inr ([0], h'))
        \<and> h' 0 = [(''e'', JInt 3), (''a__b'', JInt 1), (''a__c__d'', JInt 2)]
        \<and> mset (h' 0) = mset (leaves_of [(''a'', JDict [(''b'', JInt 1), (''c'', JDict [(''d'', JInt 2)])]),
                                          (''e'', JInt 3)])
        \<and> h' 1 = []
        \<and> flatten_dict h' [0] = Some (Inr ([0], h'))"
proof -
  let ?d = "[(''a'', JDict [(''b'', JInt 1), (''c'', JDict [(''d'', JInt 2)])]), (''e'', JInt 3)]"
  let ?h = "(\<lambda>r. [])(0 := ?d)"
  have d: "\<forall>r\<in>set [0 :: nat]. distinct (map fst (?h r))" by simp
  from flatten_dict_idempotent [OF d] obtain h' where
    h': "flatten_dict ?h [0] = Some (Inr ([0], h'))"
        "\<forall>r\<in>set [0]. flatten_while (?h r) = Some (Inr (h' r))
                 \<and> \<not> list_ex is_dict (map snd (h' r))
                 \<and> (distinct (nodes_of (?h r)) \<longrightarrow> mset (h' r) = mset (leaves_of (?h r)))"
        "\<forall>r. r \<notin> set [0] \<longrightarrow> h' r = ?h r"
        "flatten_dict h' [0] = Some (Inr ([0], h'))"
    by blast
  have n: "distinct (nodes_of (?h 0))" by simp
  with h'(2) have m: "mset (h' 0) = mset (leaves_of ?d)" by simp
  have e: "flatten_dict ?h [0] = Some (Inr ([0], ?h(0 := [(''e'', JInt 3), (''a__b'', JInt 1), (''a__c__d'', JInt 2)])))"
    by (simp add: flatten_dict_def flatten_while.simps visit_def promote_def bind_exn_def)
  from h'(1) e have l: "h' 0 = [(''e'', JInt 3), (''a__b'', JInt 1), (''a__c__d'', JInt 2)]"
    by auto
  from h'(3) have o: "h' 1 = []" by simp
  from h'(1) l m o h'(4) show ?thesis by blast
qed

text \<open>
  C8, at an input the code receives.  For the list of the one record
  \<^verbatim>\<open>{"a": {"b": 1}}\<close> the list returned holds the reference that the argument holds, and
  the record behind it has become \<^verbatim>\<open>{"a__b": 1}\<close>: the record of the caller is changed,
  and the result is no copy of it.
\<close>

theorem flatten_dict_mutates_input:
  "(let h = (\<lambda>r. [])(0 := [(''a'', JDict [(''b'', JInt 1)])])
    in case flatten_dict h [0] of
         Some (Inr (array, h')) \<Rightarrow> array = [0] \<and> h' 0 = [(''a__b'', JInt 1)] \<and> h' 0 \<noteq> h 0
       | _ \<Rightarrow> False)"
  by (simp add: flatten_dict_def flatten_while.simps visit_def promote_def bind_exn_def)

section \<open>Properties of the orchestrator\<close>

lemma inspect_length: "length (fst (snd (inspect ds ps js))) = length ps"
  by (induction ds ps js rule: inspect.induct) (auto split: sum.splits option.splits)

lemma first_completed_attained:
  "ps \<noteq> [] \<Longrightarrow> \<exists>k\<in>set ps. completes_at k \<le> first_completed ps"
  by (induction ps rule: first_completed.induct) (auto simp: min_def)














lemma first_completed_cancelled:
  "\<forall>k\<in>set ps. cancel_requested k \<Longrightarrow> first_completed ps = 0"
  by (induction ps rule: first_completed.induct) (auto simp: completes_at_def)








text \<open>
  A task that fails while another is pending: the pending task is cancelled, and the next
  inspection ends the orchestrator with \<^verbatim>\<open>CancelledError\<close>, not with the failure.
\<close>

lemma failure_with_pending_task:
  "manage_asyncio_wait [\<lparr>finish_at = 1, ending = Some (Exception 500 ''boom''), cancel_requested = False\<rparr>,
                        \<lparr>finish_at = 2, ending = None, cancel_requested = False\<rparr>]
   = \<lparr>outcome_of = Raised CancelledError,
      log_of = [Log_record INFO (Text ''An INFO'') None,
                Log_record WARNING (Text ''A WARNING'') None,
                Log_record ERROR (Text ''An ERROR'') None,
                Log_record CRITICAL (Text ''A message of CRITICAL severity'') None,
                Log_record ERROR Request_failed (Some (Exception 500 ''boom''))],
      tasks_of = [\<lparr>finish_at = 1, ending = Some (Exception 500 ''boom''), cancel_requested = False\<rparr>,
                  \<lparr>finish_at = 2, ending = None, cancel_requested = True\<rparr>]\<rparr>"
  by (simp add: manage_asyncio_wait_def manage_loop.simps asyncio_wait_def completes_at_def
        exception_def cancel_def logging_options_def logging_call_def)


end
